theory Spec2Isabelle
  imports Complex_Main "HOL-Library.Code_Target_Nat" "HOL-Library.Multiset"
begin

section \<open>JavaScript numbers and dates\<close>

text \<open>
  A JavaScript number is modelled as \<open>real option\<close>: \<open>None\<close> is \<open>NaN\<close>, \<open>Some x\<close> the
  number \<open>x\<close>. In the computations of the ledger (days, interest, balances) the
  arithmetic is exact: the rounding of doubles is not modelled there, and the two
  infinities are left out of this type, since these computations start from finite
  amounts and divide by non-zero constants only. The validation of amounts, where the
  rounding of doubles decides the result, rounds every operation to binary64
  (\<open>fl\<close> below), and \<open>parseFloat\<close>, which can return an infinity, has a result type
  of its own.
\<close>

type_synonym number = "real option"

definition lift2 :: "(real \<Rightarrow> real \<Rightarrow> 'b) \<Rightarrow> number \<Rightarrow> number \<Rightarrow> 'b option" where
  "lift2 f a b = (case a of None \<Rightarrow> None | Some x \<Rightarrow> (case b of None \<Rightarrow> None | Some y \<Rightarrow> Some (f x y)))"

definition num_add :: "number \<Rightarrow> number \<Rightarrow> number" where
  "num_add = lift2 (+)"

definition num_sub :: "number \<Rightarrow> number \<Rightarrow> number" where
  "num_sub = lift2 (-)"

definition num_mul :: "number \<Rightarrow> number \<Rightarrow> number" where
  "num_mul = lift2 (*)"

definition num_div :: "number \<Rightarrow> number \<Rightarrow> number" where
  \<comment> \<open>only used with a non-zero constant divisor\<close>
  "num_div = lift2 (/)"

definition num_gt :: "number \<Rightarrow> number \<Rightarrow> bool" where
  \<comment> \<open>\<open>a > b\<close>: false as soon as one side is \<open>NaN\<close>\<close>
  "num_gt a b = (case lift2 (\<lambda>x y. y < x) a b of None \<Rightarrow> False | Some r \<Rightarrow> r)"

definition num_le :: "number \<Rightarrow> number \<Rightarrow> bool" where
  \<comment> \<open>\<open>a <= b\<close>: false as soon as one side is \<open>NaN\<close>\<close>
  "num_le a b = (case lift2 (\<lambda>x y. x \<le> y) a b of None \<Rightarrow> False | Some r \<Rightarrow> r)"

definition Math_ceil :: "number \<Rightarrow> number" where
  "Math_ceil a = map_option (\<lambda>x. real_of_int \<lceil>x\<rceil>) a"

definition Math_max :: "number \<Rightarrow> number \<Rightarrow> number" where
  "Math_max = lift2 max"

text \<open>
  \<open>new Date(s)\<close> for a string \<open>s\<close> is a parameter \<open>D\<close> of the model: \<open>D s\<close> is the time
  value of the date in milliseconds since the epoch, \<open>None\<close> for an invalid date (whose
  time value is \<open>NaN\<close>). Subtracting two \<open>Date\<close> objects subtracts their time values.
\<close>

type_synonym date_parser = "string \<Rightarrow> int option"

definition timeValue :: "date_parser \<Rightarrow> string \<Rightarrow> number" where
  "timeValue D s = map_option real_of_int (D s)"

subsection \<open>\<open>DateUtils.daysBetween\<close>\<close>

definition daysBetween :: "date_parser \<Rightarrow> string \<Rightarrow> string \<Rightarrow> number" where
  "daysBetween D startDate endDate =
     (let diffTime = num_sub (timeValue D endDate) (timeValue D startDate)
      in Math_max (Some 0) (Math_ceil (num_div diffTime (Some (1000 * 60 * 60 * 24)))))"

subsection \<open>\<open>InterestUtils\<close>\<close>

definition INTEREST_RATE :: real where
  "INTEREST_RATE = 0.0825"

definition calculateSimple :: "number \<Rightarrow> real \<Rightarrow> number \<Rightarrow> number" where
  "calculateSimple princ rate days =
     (if num_le princ (Some 0) \<or> num_le days (Some 0) then Some 0
      else let dailyRate = rate / 365
           in num_mul (num_mul princ (Some dailyRate)) days)"

definition calculate :: "date_parser \<Rightarrow> number \<Rightarrow> string \<Rightarrow> string \<Rightarrow> real \<Rightarrow> number" where
  "calculate D princ startDate endDate rate =
     (let days = daysBetween D startDate endDate
      in calculateSimple princ rate days)"

section \<open>The ledger\<close>

text \<open>
  A transaction object. The form data (\<open>FormValidator.validateForm\<close>) has the four
  fields \<open>date\<close>, \<open>type\<close>, \<open>amount\<close>, \<open>notes\<close> as strings; a stored transaction has
  the amount as a number, and an \<open>id\<close> and a \<open>timestamp\<close> besides.
\<close>

record 'a fields =
  date :: string
  type :: string
  amount :: 'a
  notes' :: string

record transaction = "real fields" +
  id' :: string
  timestamp :: string

definition LOAN_OUT :: string where
  "LOAN_OUT = ''Loan Out''"

definition PAYMENT :: string where
  "PAYMENT = ''Payment''"

subsection \<open>\<open>Array.prototype.sort\<close> and \<open>sortTransactions\<close>\<close>

text \<open>
  \<open>Array.prototype.sort\<close> with a comparator, as the V8 engine has it for arrays of
  fewer than 64 elements: a comparator result of \<open>NaN\<close> counts as \<open>+0\<close>; the run at the
  head of the array is found (non-descending, or strictly descending and then
  reversed), and every other element is put into the sorted part at the place a binary
  search gives. Longer arrays are cut into such runs, which are merged; for a
  consistent comparator the result is the same, the stable sort. For a comparator that
  is not consistent the language leaves the order to the implementation.
\<close>

definition sortCompare :: "('a \<Rightarrow> 'a \<Rightarrow> number) \<Rightarrow> 'a \<Rightarrow> 'a \<Rightarrow> real" where
  "sortCompare comparefn x y = (case comparefn x y of None \<Rightarrow> 0 | Some v \<Rightarrow> v)"

fun runLength :: "('a \<Rightarrow> 'a \<Rightarrow> number) \<Rightarrow> bool \<Rightarrow> 'a \<Rightarrow> 'a list \<Rightarrow> nat" where
  "runLength comparefn isDescending previousElement [] = 0"
| "runLength comparefn isDescending previousElement (currentElement # rest) =
     (let order = sortCompare comparefn currentElement previousElement
      in if (if isDescending then 0 \<le> order else order < 0) then 0
         else Suc (runLength comparefn isDescending currentElement rest))"

definition countAndMakeRun :: "('a \<Rightarrow> 'a \<Rightarrow> number) \<Rightarrow> 'a list \<Rightarrow> 'a list \<times> 'a list" where
  "countAndMakeRun comparefn xs =
     (case xs of
        elementHigh # elementLow # rest \<Rightarrow>
          (let isDescending = (sortCompare comparefn elementLow elementHigh < 0);
               n = 2 + runLength comparefn isDescending elementLow rest
           in (if isDescending then rev (take n xs) else take n xs, drop n xs))
      | _ \<Rightarrow> (xs, []))"

function binarySearch :: "('a \<Rightarrow> 'a \<Rightarrow> number) \<Rightarrow> 'a \<Rightarrow> 'a list \<Rightarrow> nat \<Rightarrow> nat \<Rightarrow> nat" where
  "binarySearch comparefn pivot xs left right =
     (if left < right
      then (let mid = left + (right - left) div 2
            in if sortCompare comparefn pivot (xs ! mid) < 0
               then binarySearch comparefn pivot xs left mid
               else binarySearch comparefn pivot xs (mid + 1) right)
      else left)"
  by pat_completeness auto
termination
  by (relation "measure (\<lambda>(c, p, xs, l, r). r - l)") auto

definition binaryInsert :: "('a \<Rightarrow> 'a \<Rightarrow> number) \<Rightarrow> 'a list \<Rightarrow> 'a \<Rightarrow> 'a list" where
  "binaryInsert comparefn run pivot =
     (let left = binarySearch comparefn pivot run 0 (length run)
      in take left run @ [pivot] @ drop left run)"

definition Array_sort :: "('a \<Rightarrow> 'a \<Rightarrow> number) \<Rightarrow> 'a list \<Rightarrow> 'a list" where
  "Array_sort comparefn xs =
     (if length xs < 2 then xs
      else case countAndMakeRun comparefn xs of
             (run, rest) \<Rightarrow> foldl (binaryInsert comparefn) run rest)"

declare binarySearch.simps [simp del]

definition sortTransactions :: "date_parser \<Rightarrow> transaction list \<Rightarrow> transaction list" where
  "sortTransactions D transactions =
     Array_sort (\<lambda>a b. num_sub (timeValue D (date a)) (timeValue D (date b))) transactions"

subsection \<open>\<open>addTransaction\<close> and \<open>deleteTransaction\<close>\<close>

definition addTransaction :: "date_parser \<Rightarrow> transaction \<Rightarrow> transaction list \<Rightarrow> transaction list" where
  "addTransaction D transaction transactions = sortTransactions D (transactions @ [transaction])"

text \<open>
  The widget's state as far as \<open>deleteTransaction\<close> touches it: the ledger and the
  notifications shown. The answer of the confirmation dialog is an argument. The
  function has no failure outcome: it returns normally on every path, and what it
  reports goes through the notifications (its \<open>catch\<close> branch, which shows an error,
  is not reached by a dialog that answers).
\<close>

datatype notification = showSuccess string | showError string

record widget =
  transactions :: "transaction list"
  notifications :: "notification list"

definition deleteTransaction :: "string \<Rightarrow> bool \<Rightarrow> widget \<Rightarrow> widget" where
  "deleteTransaction i confirmed w =
     (case find (\<lambda>t. id' t = i) (transactions w) of
        None \<Rightarrow> w
      | Some transaction \<Rightarrow>
          if confirmed
          then w\<lparr>transactions := filter (\<lambda>t. id' t \<noteq> i) (transactions w),
                 notifications := notifications w @ [showSuccess ''Transaction deleted successfully'']\<rparr>
          else w)"

subsection \<open>The timeline: \<open>updateTransactionTable\<close>\<close>

text \<open>
  A table row is the tuple of values handed to \<open>createTransactionRow\<close> or to
  \<open>createCurrentInterestRow\<close>; the rendering into markup is not modelled.
  \<open>previousDate\<close> is \<open>null\<close> (\<open>None\<close>) or a date string; it is truthy when it is a
  non-empty string.
\<close>

datatype table_row =
    TransactionRow (rowTransaction: transaction) (rowDays: number) (rowInterest: number)
      (rowBalance: number) (rowIsLast: bool)
  | CurrentInterestRow (rowDate: string) (rowDays: number) (rowInterest: number)
      (rowBalance: number)

definition applyTransaction :: "transaction \<Rightarrow> number \<Rightarrow> number" where
  "applyTransaction transaction balance =
     (if type transaction = LOAN_OUT then num_add balance (Some (amount transaction))
      else num_sub balance (Some (amount transaction)))"

fun tableLoop :: "date_parser \<Rightarrow> number \<Rightarrow> string option \<Rightarrow> transaction list
    \<Rightarrow> table_row list \<times> number \<times> string option" where
  "tableLoop D balance previousDate [] = ([], balance, previousDate)"
| "tableLoop D balance previousDate (transaction # rest) =
     (let daysSinceLastEntry =
            (case previousDate of
               Some p \<Rightarrow> if p \<noteq> [] then daysBetween D p (date transaction) else Some 0
             | None \<Rightarrow> Some 0);
          interestAccrued =
            (case previousDate of
               Some p \<Rightarrow> if p \<noteq> [] \<and> num_gt balance (Some 0)
                         then calculate D balance p (date transaction) INTEREST_RATE else Some 0
             | None \<Rightarrow> Some 0);
          balance1 =
            (case previousDate of
               Some p \<Rightarrow> if p \<noteq> [] \<and> num_gt balance (Some 0)
                         then num_add balance interestAccrued else balance
             | None \<Rightarrow> balance);
          balance2 = applyTransaction transaction balance1;
          row = TransactionRow transaction daysSinceLastEntry interestAccrued balance2 (rest = [])
      in case tableLoop D balance2 (Some (date transaction)) rest of
           (rows, balance', previousDate') \<Rightarrow> (row # rows, balance', previousDate'))"

definition updateTransactionTable :: "date_parser \<Rightarrow> string \<Rightarrow> transaction list \<Rightarrow> table_row list" where
  "updateTransactionTable D today ledger =
     (if ledger = [] then []
      else case tableLoop D (Some 0) None ledger of
        (rows, balance, previousDate) \<Rightarrow>
          (case previousDate of
             Some p \<Rightarrow>
               if num_gt balance (Some 0) \<and> p \<noteq> []
               then (let daysToToday = daysBetween D p today;
                         interestToToday = calculate D balance p today INTEREST_RATE
                     in if num_gt daysToToday (Some 0)
                        then rows @ [CurrentInterestRow today daysToToday interestToToday
                                       (num_add balance interestToToday)]
                        else rows)
               else rows
           | None \<Rightarrow> rows))"

subsection \<open>The tabular export: \<open>generateCSV\<close>\<close>

text \<open>
  A line of the export is the tuple of values written into it, after the header line;
  the formatting of numbers (\<open>toFixed\<close>, \<open>Math.round\<close>) is not modelled. The notes
  have their quote characters doubled.
\<close>

datatype csv_line =
    CsvTransaction (csvTransaction: transaction) (csvDays: number) (csvInterest: number)
      (csvBalance: number) (csvNotes: string)
  | CsvCurrentInterest (csvDate: string) (csvDays: number) (csvInterest: number)
      (csvBalance: number)

definition escapeQuotes :: "string \<Rightarrow> string" where
  "escapeQuotes s = concat (map (\<lambda>c. if c = CHR 0x22 then [CHR 0x22, CHR 0x22] else [c]) s)"

fun csvLoop :: "date_parser \<Rightarrow> number \<Rightarrow> string option \<Rightarrow> transaction list
    \<Rightarrow> csv_line list \<times> number \<times> string option" where
  "csvLoop D balance previousDate [] = ([], balance, previousDate)"
| "csvLoop D balance previousDate (transaction # rest) =
     (let daysSinceLastEntry =
            (case previousDate of
               Some p \<Rightarrow> if p \<noteq> [] then daysBetween D p (date transaction) else Some 0
             | None \<Rightarrow> Some 0);
          interestAccrued =
            (case previousDate of
               Some p \<Rightarrow> if p \<noteq> [] \<and> num_gt balance (Some 0)
                         then calculate D balance p (date transaction) INTEREST_RATE else Some 0
             | None \<Rightarrow> Some 0);
          balance1 = num_add balance interestAccrued;
          balance2 = applyTransaction transaction balance1;
          line = CsvTransaction transaction daysSinceLastEntry interestAccrued balance2
                   (escapeQuotes (notes' transaction))
      in case csvLoop D balance2 (Some (date transaction)) rest of
           (lines, balance', previousDate') \<Rightarrow> (line # lines, balance', previousDate'))"

definition generateCSV :: "date_parser \<Rightarrow> string \<Rightarrow> transaction list \<Rightarrow> csv_line list" where
  "generateCSV D today ledger =
     (case csvLoop D (Some 0) None ledger of
        (lines, balance, previousDate) \<Rightarrow>
          (case previousDate of
             Some p \<Rightarrow>
               if num_gt balance (Some 0) \<and> p \<noteq> []
               then (let daysToToday = daysBetween D p today;
                         interestToToday = calculate D balance p today INTEREST_RATE
                     in lines @ [CsvCurrentInterest today daysToToday interestToToday
                                   (num_add balance interestToToday)])
               else lines
           | None \<Rightarrow> lines))"

subsection \<open>Dates in the ISO form\<close>

text \<open>
  A concrete date parser, for examples: the date-only ISO form \<open>YYYY-MM-DD\<close>, which
  \<open>new Date\<close> reads as midnight UTC of that day. It is the form the date input and
  \<open>DateUtils.today\<close> produce. The month is 1 to 12 and the day 1 to 31; a day past
  the end of its month runs on into the next month, as in V8. The day number is
  counted from 1970-01-01 in the proleptic Gregorian calendar. Every other string,
  the empty one among them, is an invalid date here.
\<close>

definition isDigit :: "char \<Rightarrow> bool" where
  "isDigit c = (c \<in> set ''0123456789'')"

definition digitVal :: "char \<Rightarrow> nat" where
  "digitVal c = of_char c - 48"

definition decimal :: "string \<Rightarrow> nat" where
  "decimal ds = foldl (\<lambda>n c. 10 * n + digitVal c) 0 ds"

definition daysFromCivil :: "int \<Rightarrow> int \<Rightarrow> int \<Rightarrow> int" where
  "daysFromCivil y m d =
     (let y' = (if m \<le> 2 then y - 1 else y);
          era = y' div 400;
          yoe = y' - era * 400;
          mp = (m + 9) mod 12;
          doy = (153 * mp + 2) div 5 + d - 1;
          doe = yoe * 365 + yoe div 4 - yoe div 100 + doy
      in era * 146097 + doe - 719468)"

definition isoDate :: date_parser where
  "isoDate s =
     (if length s = 10 \<and> s ! 4 = CHR ''-'' \<and> s ! 7 = CHR ''-''
         \<and> list_all isDigit (take 4 s) \<and> list_all isDigit (take 2 (drop 5 s))
         \<and> list_all isDigit (drop 8 s)
      then (let y = int (decimal (take 4 s));
                m = int (decimal (take 2 (drop 5 s)));
                d = int (decimal (drop 8 s))
            in if 1 \<le> m \<and> m \<le> 12 \<and> 1 \<le> d \<and> d \<le> 31
               then Some (daysFromCivil y m d * 86400000) else None)
      else None)"

subsection \<open>Reading the timeline\<close>



definition stepDays :: "date_parser \<Rightarrow> string option \<Rightarrow> transaction \<Rightarrow> number" where
  "stepDays D pd t =
     (case pd of Some p \<Rightarrow> if p \<noteq> [] then daysBetween D p (date t) else Some 0 | None \<Rightarrow> Some 0)"

definition stepInterest :: "date_parser \<Rightarrow> number \<Rightarrow> string option \<Rightarrow> transaction \<Rightarrow> number" where
  "stepInterest D b pd t =
     (case pd of
        Some p \<Rightarrow> if p \<noteq> [] \<and> num_gt b (Some 0)
                  then calculate D b p (date t) INTEREST_RATE else Some 0
      | None \<Rightarrow> Some 0)"

definition stepBalance :: "date_parser \<Rightarrow> number \<Rightarrow> string option \<Rightarrow> transaction \<Rightarrow> number" where
  "stepBalance D b pd t =
     applyTransaction t
       (case pd of
          Some p \<Rightarrow> if p \<noteq> [] \<and> num_gt b (Some 0) then num_add b (stepInterest D b pd t) else b
        | None \<Rightarrow> b)"

subsection \<open>Sequences of mutations\<close>

text \<open>
  A mutation of the ledger is an insert (\<open>addTransaction\<close>) or a removal
  (\<open>deleteTransaction\<close>, with the answer of its confirmation dialog).
  \<open>insertionOrder\<close> is the ledger the same mutations give when nothing is ever
  sorted: the surviving transactions in the order of their insertion.
\<close>

datatype mutation = Insert transaction | Remove string bool

fun mutate :: "date_parser \<Rightarrow> mutation \<Rightarrow> widget \<Rightarrow> widget" where
  "mutate D (Insert t) w = w\<lparr>transactions := addTransaction D t (transactions w)\<rparr>"
| "mutate D (Remove i confirmed) w = deleteTransaction i confirmed w"

fun mutations :: "date_parser \<Rightarrow> mutation list \<Rightarrow> widget \<Rightarrow> widget" where
  "mutations D [] w = w"
| "mutations D (m # ms) w = mutations D ms (mutate D m w)"

fun insertionStep :: "mutation \<Rightarrow> transaction list \<Rightarrow> transaction list" where
  "insertionStep (Insert t) h = h @ [t]"
| "insertionStep (Remove i confirmed) h = (if confirmed then filter (\<lambda>t. id' t \<noteq> i) h else h)"

fun insertionOrder :: "mutation list \<Rightarrow> transaction list \<Rightarrow> transaction list" where
  "insertionOrder [] h = h"
| "insertionOrder (m # ms) h = insertionOrder ms (insertionStep m h)"

fun inserted :: "mutation list \<Rightarrow> transaction list" where
  "inserted [] = []"
| "inserted (Insert t # ms) = t # inserted ms"
| "inserted (Remove i confirmed # ms) = inserted ms"

text \<open>
  A comparator is consistent on a set when it is the difference of an integer key.
\<close>

definition consistentOn :: "('a \<Rightarrow> 'a \<Rightarrow> number) \<Rightarrow> ('a \<Rightarrow> int) \<Rightarrow> 'a set \<Rightarrow> bool" where
  "consistentOn c key S = (\<forall>x\<in>S. \<forall>y\<in>S. c x y = Some (real_of_int (key x - key y)))"

definition validDate :: "date_parser \<Rightarrow> transaction \<Rightarrow> bool" where
  "validDate D t = (D (date t) \<noteq> None)"

definition onDate :: "date_parser \<Rightarrow> int \<Rightarrow> transaction \<Rightarrow> bool" where
  "onDate D k t = (D (date t) = Some k)"

section \<open>Validation\<close>

text \<open>
  A string is a list of characters, one \<open>char\<close> for each code unit below 256.
  \<open>String.prototype.trim\<close> strips white space and line terminators; in that range
  these are tab, line feed, vertical tab, form feed, carriage return, space and the
  no-break space.
\<close>

definition isWhiteSpace :: "char \<Rightarrow> bool" where
  "isWhiteSpace c = (c \<in> set [CHR 0x09, CHR 0x0A, CHR 0x0B, CHR 0x0C, CHR 0x0D, CHR 0x20, CHR 0xA0])"

definition trimStart :: "string \<Rightarrow> string" where
  "trimStart s = dropWhile isWhiteSpace s"

definition trim :: "string \<Rightarrow> string" where
  "trim s = rev (dropWhile isWhiteSpace (rev (dropWhile isWhiteSpace s)))"

subsection \<open>Doubles\<close>

text \<open>
  A double (binary64) is modelled by its value, a real number. \<open>fl x\<close> is the double
  nearest to \<open>x\<close>, a tie going to the even significand: \<open>quantum x\<close> is the spacing
  of the doubles around \<open>x\<close>, \<open>2 powi (e - 52)\<close> when \<open>2 powi e \<le> \<bar>x\<bar> < 2 powi (e + 1)\<close>
  and \<open>2 powi (-1074)\<close> below the normal range. \<open>binade\<close> finds \<open>e\<close> by halving or
  doubling, at most 1100 times, which covers the range of the doubles. \<open>toDouble\<close>
  gives the result of an operation whose exact value is \<open>x\<close>: an infinity from
  \<open>2 powi 1024 - 2 powi 970\<close> on, half a spacing above the largest double, where the
  nearest value leaves the range.
\<close>

datatype jsfloat = NaN | NegInfinity | Finite real | PosInfinity

fun binade :: "nat \<Rightarrow> real \<Rightarrow> int" where
  "binade 0 x = 0"
| "binade (Suc n) x =
     (if 2 \<le> x then binade n (x / 2) + 1
      else if x < 1 then binade n (x * 2) - 1
      else 0)"

definition quantum :: "real \<Rightarrow> real" where
  "quantum x = (if \<bar>x\<bar> < 2 powi (-1022) then 2 powi (-1074) else 2 powi (binade 1100 \<bar>x\<bar> - 52))"

definition roundHalfEven :: "real \<Rightarrow> int" where
  "roundHalfEven q =
     (let f = \<lfloor>q\<rfloor>; r = q - real_of_int f
      in if r < 1 / 2 then f else if 1 / 2 < r then f + 1 else if even f then f else f + 1)"

definition fl :: "real \<Rightarrow> real" where
  "fl x = quantum x * real_of_int (roundHalfEven (x / quantum x))"

definition toDouble :: "real \<Rightarrow> jsfloat" where
  "toDouble x =
     (if 2 powi 1024 - 2 powi 970 \<le> x then PosInfinity
      else if x \<le> - (2 powi 1024 - 2 powi 970) then NegInfinity
      else Finite (fl x))"

subsection \<open>\<open>parseFloat\<close>\<close>

text \<open>
  \<open>parseFloat\<close> skips leading white space and reads the longest prefix that is a
  decimal literal: an optional sign, then \<open>Infinity\<close> or digits with an optional
  fraction and an optional exponent. Its result is \<open>NaN\<close> when there is no such
  prefix. \<open>scanLiteral\<close> returns the decimal value of the literal, as a real number,
  together with the rest of the string that was not read; the value \<open>scanFloat\<close> and
  \<open>parseFloat\<close> return is the double nearest to it.
\<close>

definition scanSign :: "string \<Rightarrow> bool \<times> string" where
  "scanSign s =
     (case s of
        [] \<Rightarrow> (False, s)
      | c # r \<Rightarrow> if c = CHR ''-'' then (True, r) else if c = CHR ''+'' then (False, r) else (False, s))"

definition scanExponent :: "string \<Rightarrow> (bool \<times> nat) \<times> string" where
  "scanExponent s =
     (case s of
        [] \<Rightarrow> ((False, 0), s)
      | c # r \<Rightarrow>
          if c = CHR ''e'' \<or> c = CHR ''E''
          then (case scanSign r of
                  (neg, r') \<Rightarrow>
                    if takeWhile isDigit r' = [] then ((False, 0), s)
                    else ((neg, decimal (takeWhile isDigit r')), dropWhile isDigit r'))
          else ((False, 0), s))"

definition scanLiteral :: "string \<Rightarrow> jsfloat \<times> string" where
  "scanLiteral s =
     (case scanSign s of
        (neg, u) \<Rightarrow>
          if take 8 u = ''Infinity'' then (if neg then NegInfinity else PosInfinity, drop 8 u)
          else
            (let ip = takeWhile isDigit u;
                 r1 = dropWhile isDigit u;
                 dot = (r1 \<noteq> [] \<and> hd r1 = CHR ''.'');
                 fp = (if dot then takeWhile isDigit (tl r1) else []);
                 r2 = (if dot then dropWhile isDigit (tl r1) else r1)
             in if ip = [] \<and> fp = [] then (NaN, s)
                else (case scanExponent r2 of
                        ((eneg, e), r3) \<Rightarrow>
                          (let m = real (decimal ip) + real (decimal fp) / 10 ^ length fp;
                               v = (if eneg then m / 10 ^ e else m * 10 ^ e)
                           in (Finite (if neg then - v else v), r3)))))"

definition scanFloat :: "string \<Rightarrow> jsfloat \<times> string" where
  "scanFloat s =
     (case scanLiteral s of
        (Finite v, rest) \<Rightarrow> (toDouble v, rest)
      | (x, rest) \<Rightarrow> (x, rest))"

definition parseFloat :: "string \<Rightarrow> jsfloat" where
  "parseFloat s = fst (scanFloat (trimStart s))"

text \<open>
  A string is numeric when all of it, white space at both ends apart, is one decimal
  literal: \<open>parseFloat\<close> reads it to the end. (This is the notion of the claims about
  amounts, not a function of the program.)
\<close>

definition numericString :: "string \<Rightarrow> bool" where
  "numericString s =
     (case scanFloat (trimStart s) of
        (v, rest) \<Rightarrow> v \<noteq> NaN \<and> list_all isWhiteSpace rest)"

subsection \<open>\<open>ValidationUtils\<close>\<close>

datatype validation_error = ValidationError (message: string) (field: string) (code: string)

definition MIN_AMOUNT :: real where
  "MIN_AMOUNT = fl 0.01"

definition MAX_AMOUNT :: real where
  "MAX_AMOUNT = fl 999999999.99"

definition MAX_NOTE_LENGTH :: nat where
  "MAX_NOTE_LENGTH = 500"

definition INVALID_DATE :: string where
  "INVALID_DATE = ''Please enter a valid date''"

definition INVALID_AMOUNT :: string where
  "INVALID_AMOUNT = ''Please enter a valid amount''"

definition AMOUNT_TOO_LOW :: string where
  "AMOUNT_TOO_LOW = ''Amount must be at least $0.01''"

definition AMOUNT_TOO_HIGH :: string where
  "AMOUNT_TOO_HIGH = ''Amount cannot exceed $999,999,999.99''"

definition NOTES_TOO_LONG :: string where
  "NOTES_TOO_LONG = ''Notes cannot exceed 500 characters''"

definition FUTURE_DATE_WARNING :: string where
  "FUTURE_DATE_WARNING = ''Future dates will affect interest calculations''"

definition DUPLICATE_WARNING :: string where
  "DUPLICATE_WARNING = ''Similar transaction detected. Are you sure you want to add this?''"

text \<open>
  \<open>isEmpty\<close> on a string: the branches for \<open>null\<close>, \<open>undefined\<close> and arrays do not
  apply to the fields of the form, which are strings.
\<close>

definition isEmpty :: "string \<Rightarrow> bool" where
  "isEmpty v = (trim v = [])"

text \<open>
  \<open>sanitizeHtml\<close> sets the text of an element and reads its markup back: the
  serialisation of a text node escapes the ampersand, the no-break space and the two
  angle brackets.
\<close>

definition escapeChar :: "char \<Rightarrow> string" where
  "escapeChar c =
     (if c = CHR ''&'' then ''&amp;''
      else if c = CHR 0xA0 then ''&nbsp;''
      else if c = CHR ''<'' then ''&lt;''
      else if c = CHR ''>'' then ''&gt;''
      else [c])"

definition sanitizeHtml :: "string \<Rightarrow> string" where
  "sanitizeHtml input = concat (map escapeChar input)"

text \<open>
  \<open>parseDate\<close> returns \<open>null\<close> (\<open>None\<close>) for an empty string and the date (its time
  value) otherwise; it throws on a date that does not parse.
\<close>

definition parseDate :: "date_parser \<Rightarrow> string \<Rightarrow> validation_error + int option" where
  "parseDate D dateString =
     (if dateString = [] then Inr None
      else case D dateString of
             None \<Rightarrow> Inl (ValidationError INVALID_DATE ''date'' ''INVALID_DATE'')
           | Some t \<Rightarrow> Inr (Some t))"

text \<open>
  \<open>Math.round\<close> gives the nearest integer, a tie going up; on a double below
  \<open>2 ^ 52\<close> it is exact. In \<open>parseAmount\<close> the product by 100 and the quotient by 100
  are operations on doubles, each rounded; both stay in the range, as the amount is
  within its bounds there.
\<close>

definition Math_round :: "real \<Rightarrow> real" where
  "Math_round x = real_of_int \<lfloor>x + 1 / 2\<rfloor>"

definition parseAmount :: "string \<Rightarrow> validation_error + real" where
  "parseAmount amountString =
     (if isEmpty amountString then Inl (ValidationError INVALID_AMOUNT ''amount'' ''REQUIRED'')
      else case parseFloat amountString of
             NaN \<Rightarrow> Inl (ValidationError INVALID_AMOUNT ''amount'' ''INVALID_NUMBER'')
           | NegInfinity \<Rightarrow> Inl (ValidationError AMOUNT_TOO_LOW ''amount'' ''TOO_LOW'')
           | PosInfinity \<Rightarrow> Inl (ValidationError AMOUNT_TOO_HIGH ''amount'' ''TOO_HIGH'')
           | Finite a \<Rightarrow>
               if a < MIN_AMOUNT then Inl (ValidationError AMOUNT_TOO_LOW ''amount'' ''TOO_LOW'')
               else if a > MAX_AMOUNT then Inl (ValidationError AMOUNT_TOO_HIGH ''amount'' ''TOO_HIGH'')
               else Inr (fl (Math_round (fl (a * 100)) / 100)))"

text \<open>
  \<open>CONFIG\<close> has no key \<open>TRANSACTION_TYPES\<close>, so the valid types are the two of the
  default array.
\<close>

definition validateTransactionType :: "string \<Rightarrow> validation_error + string" where
  "validateTransactionType t =
     (let validTypes = [''Loan Out'', ''Payment'']
      in if t \<notin> set validTypes
         then Inl (ValidationError ''Invalid transaction type'' ''type'' ''INVALID_TYPE'')
         else Inr t)"

definition validateNotes :: "string \<Rightarrow> validation_error + string" where
  "validateNotes n =
     (if isEmpty n then Inr []
      else let sanitized = sanitizeHtml (trim n)
           in if length sanitized > MAX_NOTE_LENGTH
              then Inl (ValidationError NOTES_TOO_LONG ''notes'' ''TOO_LONG'')
              else Inr sanitized)"

text \<open>
  \<open>isFutureDate\<close> compares with the end of the current day, a parameter (its time
  value); \<open>null\<close> compares as the number 0.
\<close>

definition isFutureDate :: "int \<Rightarrow> int option \<Rightarrow> bool" where
  "isFutureDate endOfToday d = (case d of None \<Rightarrow> endOfToday < 0 | Some t \<Rightarrow> endOfToday < t)"

subsection \<open>\<open>TransactionValidator\<close>\<close>

text \<open>
  The \<open>errors\<close> and \<open>warnings\<close> objects map a field to the list of its entries
  \<open>{message, code}\<close>; they are association lists in the order the keys were added.
\<close>

type_synonym entries = "(string \<times> (string \<times> string) list) list"

record validator =
  errors :: entries
  warnings :: entries

definition addEntry :: "string \<Rightarrow> string \<times> string \<Rightarrow> entries \<Rightarrow> entries" where
  "addEntry f e m =
     (case map_of m f of
        None \<Rightarrow> m @ [(f, [e])]
      | Some es \<Rightarrow> map (\<lambda>(k, v). if k = f then (k, v @ [e]) else (k, v)) m)"

definition clear :: "validator \<Rightarrow> validator" where
  "clear v = v\<lparr>errors := [], warnings := []\<rparr>"

definition addError :: "string \<Rightarrow> string \<Rightarrow> string \<Rightarrow> validator \<Rightarrow> validator" where
  "addError f msg c v = v\<lparr>errors := addEntry f (msg, c) (errors v)\<rparr>"

definition addWarning :: "string \<Rightarrow> string \<Rightarrow> string \<Rightarrow> validator \<Rightarrow> validator" where
  "addWarning f msg c v = v\<lparr>warnings := addEntry f (msg, c) (warnings v)\<rparr>"

definition hasErrors :: "validator \<Rightarrow> bool" where
  "hasErrors v = (length (map fst (errors v)) > 0)"

text \<open>
  \<open>checkForDuplicates\<close>: the candidate is the form data, its amount a string; the
  amount of an existing transaction is a number, a double, which \<open>parseFloat\<close> gives
  back. \<open>nearAmount x y\<close> is \<open>Math.abs(x - y) < 0.01\<close> on doubles: the difference is
  rounded and compared with the double of 0.01; it is false when \<open>y\<close> is \<open>NaN\<close> or
  an infinity, or when the difference leaves the range.
\<close>

definition nearAmount :: "real \<Rightarrow> jsfloat \<Rightarrow> bool" where
  "nearAmount x y =
     (case y of
        Finite b \<Rightarrow> (case toDouble (x - b) of Finite d \<Rightarrow> \<bar>d\<bar> < fl 0.01 | _ \<Rightarrow> False)
      | _ \<Rightarrow> False)"

definition potentialDuplicate :: "string fields \<Rightarrow> transaction list \<Rightarrow> transaction option" where
  "potentialDuplicate transaction existingTransactions =
     find (\<lambda>existing. date existing = date transaction
                     \<and> type existing = type transaction
                     \<and> nearAmount (amount existing) (parseFloat (amount transaction)))
       existingTransactions"

definition checkForDuplicates :: "string fields \<Rightarrow> transaction list \<Rightarrow> validator \<Rightarrow> validator" where
  "checkForDuplicates transaction existingTransactions v =
     (case potentialDuplicate transaction existingTransactions of
        Some potential \<Rightarrow> addWarning ''duplicate'' DUPLICATE_WARNING ''DUPLICATE'' v
      | None \<Rightarrow> v)"

definition validateTransaction ::
    "date_parser \<Rightarrow> int \<Rightarrow> string fields \<Rightarrow> transaction list \<Rightarrow> validator \<Rightarrow> bool \<times> validator" where
  "validateTransaction D endOfToday transaction existingTransactions v =
     (let v0 = clear v;
          v1 = (case parseDate D (date transaction) of
                  Inr d \<Rightarrow> if isFutureDate endOfToday d
                           then addWarning ''date'' FUTURE_DATE_WARNING ''FUTURE_DATE'' v0 else v0
                | Inl error \<Rightarrow> addError ''date'' (message error) (code error) v0);
          v2 = (case parseAmount (amount transaction) of
                  Inr a \<Rightarrow> v1
                | Inl error \<Rightarrow> addError ''amount'' (message error) (code error) v1);
          v3 = (case validateTransactionType (type transaction) of
                  Inr t \<Rightarrow> v2
                | Inl error \<Rightarrow> addError ''type'' (message error) (code error) v2);
          v4 = (case validateNotes (notes' transaction) of
                  Inr n \<Rightarrow> v3
                | Inl error \<Rightarrow> addError ''notes'' (message error) (code error) v3);
          v5 = checkForDuplicates transaction existingTransactions v4
      in (\<not> hasErrors v5, v5))"

text \<open>
  The entry of the \<open>errors\<close> object that a field's validator accounts for: one entry
  with the message and the code of its failure, none when it succeeds.
\<close>

definition fieldErrors :: "string \<Rightarrow> validation_error + 'a \<Rightarrow> entries" where
  "fieldErrors f r = (case r of Inl e \<Rightarrow> [(f, [(message e, code e)])] | Inr x \<Rightarrow> [])"

text \<open>
  A near match of a candidate: an existing transaction of the same date and type whose
  amount \<open>checkForDuplicates\<close> finds near the candidate's.
\<close>

definition isNearMatch :: "string fields \<Rightarrow> transaction \<Rightarrow> bool" where
  "isNearMatch c e =
     (date e = date c \<and> type e = type c \<and> nearAmount (amount e) (parseFloat (amount c)))"

text \<open>
  A string starts with a number when, after an optional sign, it begins with
  \<open>Infinity\<close>, with a digit, or with a point followed by a digit: the strings
  \<open>parseFloat\<close> finds a decimal literal at the head of.
\<close>

definition startsWithNumber :: "string \<Rightarrow> bool" where
  "startsWithNumber s =
     (case scanSign s of
        (neg, u) \<Rightarrow>
          take 8 u = ''Infinity''
          \<or> (u \<noteq> [] \<and> isDigit (hd u))
          \<or> (u \<noteq> [] \<and> hd u = CHR ''.'' \<and> tl u \<noteq> [] \<and> isDigit (hd (tl u))))"

section \<open>Verified properties\<close>

subsection \<open>Arithmetic and dates\<close>

lemma num_simps:
  "num_add (Some x) (Some y) = Some (x + y)"
  "num_sub (Some x) (Some y) = Some (x - y)"
  "num_mul (Some x) (Some y) = Some (x * y)"
  "num_div (Some x) (Some y) = Some (x / y)"
  "num_gt (Some x) (Some y) = (y < x)"
  "num_le (Some x) (Some y) = (x \<le> y)"
  "Math_max (Some x) (Some y) = Some (max x y)"
  "Math_ceil (Some x) = Some (real_of_int \<lceil>x\<rceil>)"
  by (simp_all add: num_add_def num_sub_def num_mul_def num_div_def num_gt_def num_le_def
      Math_max_def Math_ceil_def lift2_def)

lemma num_NaN:
  "num_add None b = None" "num_add a None = None"
  "num_sub None b = None" "num_sub a None = None"
  "num_mul None b = None" "num_mul a None = None"
  "num_div None b = None" "num_div a None = None"
  "num_gt None b = False" "num_gt a None = False"
  "num_le None b = False" "num_le a None = False"
  "Math_max None b = None" "Math_max a None = None"
  "Math_ceil None = None"
  by (simp_all add: num_add_def num_sub_def num_mul_def num_div_def num_gt_def num_le_def
      Math_max_def Math_ceil_def lift2_def split: option.splits)

lemma isoDate_2023_01_01: "isoDate ''2023-01-01'' = Some 1672531200000"
  by (simp add: isoDate_def isDigit_def decimal_def digitVal_def daysFromCivil_def)

lemma isoDate_2023_02_01: "isoDate ''2023-02-01'' = Some 1675209600000"
  by (simp add: isoDate_def isDigit_def decimal_def digitVal_def daysFromCivil_def)

lemma isoDate_empty: "isoDate [] = None"
  by (simp add: isoDate_def)

lemma daysBetween_valid:
  "D s = Some a \<Longrightarrow> D e = Some b \<Longrightarrow>
   daysBetween D s e = Some (real_of_int (max 0 \<lceil>real_of_int (b - a) / 86400000\<rceil>))"
  by (simp add: daysBetween_def timeValue_def num_simps max_def)

text \<open>
  C5. For two valid dates, \<open>daysBetween start end\<close> is the time from \<open>start\<close> to \<open>end\<close>
  in days, rounded up to a whole day and floored at 0: it is the least whole number
  \<open>n \<ge> 0\<close> of days that covers the difference, and it is 0 (never negative) when
  \<open>end\<close> precedes \<open>start\<close>.
\<close>

theorem daysBetween_rounds_up_floors_at_zero:
  assumes "D s = Some a" and "D e = Some b"
  shows "\<exists>n::int. daysBetween D s e = Some (real_of_int n)
           \<and> n = max 0 \<lceil>real_of_int (b - a) / 86400000\<rceil>
           \<and> 0 \<le> n
           \<and> b - a \<le> n * 86400000
           \<and> (\<forall>k::int. 0 \<le> k \<and> b - a \<le> k * 86400000 \<longrightarrow> n \<le> k)
           \<and> (b < a \<longrightarrow> n = 0)"
proof -
  define n :: int where "n = max 0 \<lceil>real_of_int (b - a) / 86400000\<rceil>"
  have c: "real_of_int (b - a) / 86400000 \<le> real_of_int \<lceil>real_of_int (b - a) / 86400000\<rceil>"
    by (rule le_of_int_ceiling)
  have cover: "b - a \<le> n * 86400000"
  proof -
    have "real_of_int (b - a) / 86400000 * 86400000
        \<le> real_of_int \<lceil>real_of_int (b - a) / 86400000\<rceil> * 86400000"
      using c by (rule mult_right_mono) simp
    then have "real_of_int (b - a) \<le> real_of_int \<lceil>real_of_int (b - a) / 86400000\<rceil> * 86400000"
      by simp
    also have "\<dots> \<le> real_of_int n * 86400000"
      by (simp add: n_def)
    finally have "real_of_int (b - a) \<le> real_of_int (n * 86400000)" by simp
    then show ?thesis by linarith
  qed
  have least: "n \<le> k" if "0 \<le> k" and "b - a \<le> k * 86400000" for k :: int
  proof -
    have "real_of_int (b - a) \<le> real_of_int k * 86400000"
      using that(2) by (metis of_int_le_iff of_int_mult of_int_numeral)
    then have "real_of_int (b - a) / 86400000 \<le> real_of_int k"
      by (simp add: field_simps)
    then have "\<lceil>real_of_int (b - a) / 86400000\<rceil> \<le> k"
      by (simp add: ceiling_le_iff)
    with that(1) show ?thesis by (simp add: n_def)
  qed
  have neg: "n = 0" if "b < a"
  proof -
    have "real_of_int (b - a) / 86400000 \<le> 0"
      using that by (simp add: field_simps)
    then have "\<lceil>real_of_int (b - a) / 86400000\<rceil> \<le> 0"
      by (simp add: ceiling_le_iff)
    then show ?thesis by (simp add: n_def)
  qed
  have "daysBetween D s e = Some (real_of_int n)"
    using assms by (simp add: daysBetween_valid n_def)
  moreover have "0 \<le> n" by (simp add: n_def)
  ultimately show ?thesis
    using cover least neg n_def by blast
qed

theorem daysBetween_rounds_up_floors_at_zero_witness:
  "daysBetween isoDate ''2023-01-01'' ''2023-02-01'' = Some 31
   \<and> daysBetween isoDate ''2023-02-01'' ''2023-01-01'' = Some 0"
proof -
  have a: "\<exists>n::int. daysBetween isoDate ''2023-01-01'' ''2023-02-01'' = Some (real_of_int n)
      \<and> n = max 0 \<lceil>real_of_int (1675209600000 - 1672531200000) / 86400000\<rceil>"
    using daysBetween_rounds_up_floors_at_zero [of isoDate "''2023-01-01''" 1672531200000 "''2023-02-01''" 1675209600000]
      isoDate_2023_01_01 isoDate_2023_02_01
    by blast
  have b: "\<exists>n::int. daysBetween isoDate ''2023-02-01'' ''2023-01-01'' = Some (real_of_int n)
      \<and> ((1672531200000::int) < 1675209600000 \<longrightarrow> n = 0)"
    using daysBetween_rounds_up_floors_at_zero [of isoDate "''2023-02-01''" 1675209600000 "''2023-01-01''" 1672531200000]
      isoDate_2023_01_01 isoDate_2023_02_01
    by blast
  from a b show ?thesis by auto
qed

subsection \<open>The timeline\<close>

lemma daysBetween_nonneg: "daysBetween D s e = Some d \<Longrightarrow> 0 \<le> d"
  by (cases "D s"; cases "D e")
     (auto simp: daysBetween_def timeValue_def num_simps num_NaN)

lemma calculate_formula:
  assumes "num_gt b (Some 0)"
  shows "calculate D b s e r = num_mul (num_mul b (Some (r / 365))) (daysBetween D s e)"
proof -
  from assms obtain x where b: "b = Some x" and x: "0 < x"
    by (cases b) (auto simp: num_simps num_NaN)
  show ?thesis
  proof (cases "daysBetween D s e")
    case None
    then show ?thesis using x
      by (simp add: calculate_def calculateSimple_def b num_simps num_NaN)
  next
    case (Some d)
    then have "0 \<le> d" by (rule daysBetween_nonneg)
    then show ?thesis using Some x
      by (auto simp: calculate_def calculateSimple_def b num_simps num_NaN)
  qed
qed

lemma tableLoop_Cons:
  "tableLoop D b pd (t # rest) =
     (TransactionRow t (stepDays D pd t) (stepInterest D b pd t) (stepBalance D b pd t) (rest = [])
        # fst (tableLoop D (stepBalance D b pd t) (Some (date t)) rest),
      snd (tableLoop D (stepBalance D b pd t) (Some (date t)) rest))"
  by (cases pd) (auto simp: Let_def stepDays_def stepInterest_def stepBalance_def split: prod.splits)








subsection \<open>The current-interest row\<close>

lemma tableLoop_previousDate:
  "ledger \<noteq> [] \<Longrightarrow> snd (snd (tableLoop D b pd ledger)) = Some (date (last ledger))"
proof (induction ledger arbitrary: b pd)
  case Nil
  then show ?case by simp
next
  case (Cons t rest)
  then show ?case
    by (cases "rest = []") (simp_all add: tableLoop_Cons del: tableLoop.simps(2))
qed

lemma table_current_interest_row:
  assumes "ledger \<noteq> []" and "date (last ledger) \<noteq> []"
  shows "updateTransactionTable D today ledger =
     fst (tableLoop D (Some 0) None ledger) @
     (let balance = fst (snd (tableLoop D (Some 0) None ledger));
          days = daysBetween D (date (last ledger)) today
      in if num_gt balance (Some 0) \<and> num_gt days (Some 0)
         then [CurrentInterestRow today days
                 (num_mul (num_mul balance (Some (INTEREST_RATE / 365))) days)
                 (num_add balance (num_mul (num_mul balance (Some (INTEREST_RATE / 365))) days))]
         else [])"
proof -
  obtain rows balance previousDate where l: "tableLoop D (Some 0) None ledger = (rows, balance, previousDate)"
    by (cases "tableLoop D (Some 0) None ledger") auto
  have "previousDate = Some (date (last ledger))"
    using tableLoop_previousDate [OF assms(1), of D "Some 0" None] by (simp add: l)
  then show ?thesis
    using assms by (simp add: updateTransactionTable_def l Let_def calculate_formula)
qed

lemma csvLoop_Cons_snd:
  "snd (snd (csvLoop D b pd (t # rest))) =
     snd (snd (csvLoop D (applyTransaction t (num_add b (stepInterest D b pd t))) (Some (date t)) rest))"
  by (cases pd) (auto simp: Let_def stepInterest_def split: prod.splits)

lemma csvLoop_previousDate:
  "ledger \<noteq> [] \<Longrightarrow> snd (snd (csvLoop D b pd ledger)) = Some (date (last ledger))"
proof (induction ledger arbitrary: b pd)
  case Nil
  then show ?case by simp
next
  case (Cons t rest)
  then show ?case
    by (cases "rest = []") (simp_all add: csvLoop_Cons_snd del: csvLoop.simps(2))
qed

lemma csv_current_interest_line:
  assumes "ledger \<noteq> []" and "date (last ledger) \<noteq> []"
  shows "generateCSV D today ledger =
     fst (csvLoop D (Some 0) None ledger) @
     (let balance = fst (snd (csvLoop D (Some 0) None ledger));
          days = daysBetween D (date (last ledger)) today
      in if num_gt balance (Some 0)
         then [CsvCurrentInterest today days
                 (num_mul (num_mul balance (Some (INTEREST_RATE / 365))) days)
                 (num_add balance (num_mul (num_mul balance (Some (INTEREST_RATE / 365))) days))]
         else [])"
proof -
  obtain lines balance previousDate where l: "csvLoop D (Some 0) None ledger = (lines, balance, previousDate)"
    by (cases "csvLoop D (Some 0) None ledger") auto
  have "previousDate = Some (date (last ledger))"
    using csvLoop_previousDate [OF assms(1), of D "Some 0" None] by (simp add: l)
  then show ?thesis
    using assms by (simp add: generateCSV_def l Let_def calculate_formula)
qed

lemma daysBetween_same_day: "daysBetween isoDate ''2023-01-01'' ''2023-01-01'' = Some 0"
  using isoDate_2023_01_01 by (simp add: daysBetween_def timeValue_def num_simps)

text \<open>
  C3. The claim: a current-interest row is appended to the table and to the export
  if and only if the final balance is positive, a transaction exists and the days
  from the last transaction to today are positive. The table does so
  (\<open>table_current_interest_row\<close>); the export appends its current-interest line
  without looking at the days (\<open>csv_current_interest_line\<close>). For a ledger whose
  only transaction is a loan dated today, the days to today are 0: the table has no
  current-interest row, and the export has a current-interest line of 0 days and
  0 interest.
\<close>

theorem csv_current_interest_line_on_zero_days:
  "daysBetween isoDate ''2023-01-01'' ''2023-01-01'' = Some 0
   \<and> generateCSV isoDate ''2023-01-01''
        [\<lparr>date = ''2023-01-01'', type = ''Loan Out'', amount = 1000, notes' = '''',
           id' = ''txn_1'', timestamp = ''''\<rparr>]
      = [CsvTransaction
           \<lparr>date = ''2023-01-01'', type = ''Loan Out'', amount = 1000, notes' = '''',
              id' = ''txn_1'', timestamp = ''''\<rparr> (Some 0) (Some 0) (Some 1000) '''',
         CsvCurrentInterest ''2023-01-01'' (Some 0) (Some 0) (Some 1000)]
   \<and> updateTransactionTable isoDate ''2023-01-01''
        [\<lparr>date = ''2023-01-01'', type = ''Loan Out'', amount = 1000, notes' = '''',
           id' = ''txn_1'', timestamp = ''''\<rparr>]
      = [TransactionRow
           \<lparr>date = ''2023-01-01'', type = ''Loan Out'', amount = 1000, notes' = '''',
              id' = ''txn_1'', timestamp = ''''\<rparr> (Some 0) (Some 0) (Some 1000) True]"
  by (simp add: daysBetween_same_day generateCSV_def updateTransactionTable_def Let_def
      applyTransaction_def LOAN_OUT_def num_simps calculate_def calculateSimple_def escapeQuotes_def)

subsection \<open>Removing a transaction\<close>

lemma find_None_filter: "find P xs = None \<Longrightarrow> filter (\<lambda>x. \<not> P x) xs = xs"
  by (induction xs) (auto split: if_splits)

lemma find_Some_holds: "find P xs = Some x \<Longrightarrow> P x \<and> x \<in> set xs"
  by (induction xs) (auto split: if_splits)

lemma deleteTransaction_transactions:
  "transactions (deleteTransaction i confirmed w) =
     (if confirmed then filter (\<lambda>t. id' t \<noteq> i) (transactions w) else transactions w)"
  by (cases "find (\<lambda>t. id' t = i) (transactions w)")
     (auto simp: deleteTransaction_def find_None_filter)

lemma filter_distinct_key:
  "distinct (map f xs) \<Longrightarrow> x \<in> set xs \<Longrightarrow> filter (\<lambda>y. f y \<noteq> f x) xs = remove1 x xs"
proof (induction xs)
  case Nil
  then show ?case by simp
next
  case (Cons y ys)
  show ?case
  proof (cases "y = x")
    case True
    then have "f x \<notin> f ` set ys" using Cons.prems(1) by simp
    then have "\<forall>z\<in>set ys. f z \<noteq> f x" by (metis imageI)
    then have "filter (\<lambda>y. f y \<noteq> f x) ys = ys" by (simp add: filter_id_conv)
    then show ?thesis using True by simp
  next
    case False
    then have "x \<in> set ys" using Cons.prems(2) by simp
    moreover have "f y \<noteq> f x" using Cons.prems(1) calculation by auto
    ultimately show ?thesis using Cons False by simp
  qed
qed

text \<open>
  C4, as the code has it. \<open>deleteTransaction\<close> raises no error: when no entry has
  the id (or the user declines) the widget is returned as it is, with no notification;
  when an entry has the id and the user confirms, every entry with that id is filtered
  out, the others keep their order, and the success notification is shown. With
  unique ids the filter removes exactly the one matching entry.
\<close>

theorem deleteTransaction_silent_when_absent:
  "((\<forall>t\<in>set (transactions w). id' t \<noteq> i) \<or> \<not> confirmed \<longrightarrow> deleteTransaction i confirmed w = w)
   \<and> ((\<exists>t\<in>set (transactions w). id' t = i) \<and> confirmed \<longrightarrow>
        deleteTransaction i confirmed w =
          w\<lparr>transactions := filter (\<lambda>t. id' t \<noteq> i) (transactions w),
            notifications := notifications w @ [showSuccess ''Transaction deleted successfully'']\<rparr>)
   \<and> (distinct (map id' (transactions w)) \<and> x \<in> set (transactions w) \<and> id' x = i \<longrightarrow>
        filter (\<lambda>t. id' t \<noteq> i) (transactions w) = remove1 x (transactions w))"
proof (intro conjI impI)
  assume "(\<forall>t\<in>set (transactions w). id' t \<noteq> i) \<or> \<not> confirmed"
  then show "deleteTransaction i confirmed w = w"
    by (auto simp: deleteTransaction_def find_None_iff dest: find_Some_holds split: option.splits)
next
  assume "(\<exists>t\<in>set (transactions w). id' t = i) \<and> confirmed"
  then show "deleteTransaction i confirmed w =
          w\<lparr>transactions := filter (\<lambda>t. id' t \<noteq> i) (transactions w),
            notifications := notifications w @ [showSuccess ''Transaction deleted successfully'']\<rparr>"
    by (auto simp: deleteTransaction_def find_None_iff dest: find_Some_holds split: option.splits)
next
  assume "distinct (map id' (transactions w)) \<and> x \<in> set (transactions w) \<and> id' x = i"
  then show "filter (\<lambda>t. id' t \<noteq> i) (transactions w) = remove1 x (transactions w)"
    using filter_distinct_key [of id' "transactions w" x] by auto
qed

text \<open>
  Removing an id that no entry has does not fail: the widget comes back unchanged and
  no error is reported.
\<close>

theorem deleteTransaction_absent_id_no_error:
  "deleteTransaction ''txn_2'' True
     \<lparr>transactions = [\<lparr>date = ''2023-01-01'', type = ''Loan Out'', amount = 1000, notes' = '''',
                         id' = ''txn_1'', timestamp = ''''\<rparr>],
      notifications = []\<rparr>
   = \<lparr>transactions = [\<lparr>date = ''2023-01-01'', type = ''Loan Out'', amount = 1000, notes' = '''',
                         id' = ''txn_1'', timestamp = ''''\<rparr>],
      notifications = []\<rparr>"
  by (simp add: deleteTransaction_def)

theorem deleteTransaction_silent_when_absent_witness:
  "deleteTransaction ''txn_3'' True
     \<lparr>transactions = [\<lparr>date = ''2023-01-01'', type = ''Loan Out'', amount = 1000, notes' = '''',
                         id' = ''txn_1'', timestamp = ''''\<rparr>,
                      \<lparr>date = ''2023-02-01'', type = ''Payment'', amount = 100, notes' = '''',
                         id' = ''txn_2'', timestamp = ''''\<rparr>],
      notifications = []\<rparr>
   = \<lparr>transactions = [\<lparr>date = ''2023-01-01'', type = ''Loan Out'', amount = 1000, notes' = '''',
                         id' = ''txn_1'', timestamp = ''''\<rparr>,
                      \<lparr>date = ''2023-02-01'', type = ''Payment'', amount = 100, notes' = '''',
                         id' = ''txn_2'', timestamp = ''''\<rparr>],
      notifications = []\<rparr>
   \<and> deleteTransaction ''txn_1'' True
     \<lparr>transactions = [\<lparr>date = ''2023-01-01'', type = ''Loan Out'', amount = 1000, notes' = '''',
                         id' = ''txn_1'', timestamp = ''''\<rparr>,
                      \<lparr>date = ''2023-02-01'', type = ''Payment'', amount = 100, notes' = '''',
                         id' = ''txn_2'', timestamp = ''''\<rparr>],
      notifications = []\<rparr>
   = \<lparr>transactions = [\<lparr>date = ''2023-02-01'', type = ''Payment'', amount = 100, notes' = '''',
                         id' = ''txn_2'', timestamp = ''''\<rparr>],
      notifications = [showSuccess ''Transaction deleted successfully'']\<rparr>"
proof -
  let ?t1 = "\<lparr>date = ''2023-01-01'', type = ''Loan Out'', amount = 1000, notes' = '''',
                         id' = ''txn_1'', timestamp = ''''\<rparr>"
  let ?t2 = "\<lparr>date = ''2023-02-01'', type = ''Payment'', amount = 100, notes' = '''',
                         id' = ''txn_2'', timestamp = ''''\<rparr>"
  let ?w = "\<lparr>transactions = [?t1, ?t2], notifications = []\<rparr>"
  have absent: "\<forall>t\<in>set (transactions ?w). id' t \<noteq> ''txn_3''" by simp
  have present: "\<exists>t\<in>set (transactions ?w). id' t = ''txn_1''" by simp
  have a: "deleteTransaction ''txn_3'' True ?w = ?w"
    using deleteTransaction_silent_when_absent [of ?w "''txn_3''" True] absent by blast
  have b: "deleteTransaction ''txn_1'' True ?w =
      ?w\<lparr>transactions := filter (\<lambda>t. id' t \<noteq> ''txn_1'') (transactions ?w),
         notifications := notifications ?w @ [showSuccess ''Transaction deleted successfully'']\<rparr>"
    using deleteTransaction_silent_when_absent [of ?w "''txn_1''" True] present by blast
  from a b show ?thesis by simp
qed

subsection \<open>Stable ordering\<close>

lemma sortCompare_key:
  "c x y = Some (real_of_int (key x - key y)) \<Longrightarrow> (sortCompare c x y < 0) = (key x < key y)"
  by (simp add: sortCompare_def)

lemma binarySearch_correct:
  assumes "\<forall>y\<in>set xs. (sortCompare c pivot y < 0) = (key pivot < key y)"
    and "sorted (map key xs)" and "left \<le> right" and "right \<le> length xs"
  shows "left \<le> binarySearch c pivot xs left right
       \<and> binarySearch c pivot xs left right \<le> right
       \<and> (\<forall>i. left \<le> i \<and> i < binarySearch c pivot xs left right \<longrightarrow> key (xs ! i) \<le> key pivot)
       \<and> (\<forall>i. binarySearch c pivot xs left right \<le> i \<and> i < right \<longrightarrow> key pivot < key (xs ! i))"
  using assms
proof (induction c pivot xs left right rule: binarySearch.induct)
  case (1 c pivot xs left right)
  show ?case
  proof (cases "left < right")
    case False
    then have eq: "binarySearch c pivot xs left right = left"
      by (simp add: binarySearch.simps [of c pivot xs left right])
    show ?thesis unfolding eq using "1.prems"(3) False by auto
  next
    case lr: True
    define mid where "mid = left + (right - left) div 2"
    have mid: "left \<le> mid" "mid < right" using lr by (simp_all add: mid_def) 
    have midlen: "mid < length xs" using mid "1.prems"(4) by simp
    have nth_mono: "key (xs ! i) \<le> key (xs ! j)" if "i \<le> j" "j < length xs" for i j
      using "1.prems"(2) that by (simp add: sorted_iff_nth_mono)
    show ?thesis
    proof (cases "sortCompare c pivot (xs ! mid) < 0")
      case True
      then have lt: "key pivot < key (xs ! mid)"
        using "1.prems"(1) midlen by auto
      have eq: "binarySearch c pivot xs left right = binarySearch c pivot xs left mid"
        using lr True by (simp add: binarySearch.simps [of c pivot xs left right] mid_def Let_def)
      have IH: "left \<le> binarySearch c pivot xs left mid
       \<and> binarySearch c pivot xs left mid \<le> mid
       \<and> (\<forall>i. left \<le> i \<and> i < binarySearch c pivot xs left mid \<longrightarrow> key (xs ! i) \<le> key pivot)
       \<and> (\<forall>i. binarySearch c pivot xs left mid \<le> i \<and> i < mid \<longrightarrow> key pivot < key (xs ! i))"
        using "1.IH"(1) [OF lr mid_def True "1.prems"(1,2)] mid midlen by simp
      have "key pivot < key (xs ! i)" if "mid \<le> i" "i < right" for i
      proof -
        have "key (xs ! mid) \<le> key (xs ! i)" using that "1.prems"(4) by (intro nth_mono) simp_all
        with lt show ?thesis by simp
      qed
      then have up: "\<forall>i. binarySearch c pivot xs left mid \<le> i \<and> i < right \<longrightarrow> key pivot < key (xs ! i)"
        using IH by (metis not_le_imp_less)
      show ?thesis unfolding eq using IH up mid by auto
    next
      case False
      then have ge: "key (xs ! mid) \<le> key pivot"
        using "1.prems"(1) midlen by auto
      have eq: "binarySearch c pivot xs left right = binarySearch c pivot xs (mid + 1) right"
        using lr False by (simp add: binarySearch.simps [of c pivot xs left right] mid_def Let_def)
      have IH: "mid + 1 \<le> binarySearch c pivot xs (mid + 1) right
       \<and> binarySearch c pivot xs (mid + 1) right \<le> right
       \<and> (\<forall>i. mid + 1 \<le> i \<and> i < binarySearch c pivot xs (mid + 1) right \<longrightarrow> key (xs ! i) \<le> key pivot)
       \<and> (\<forall>i. binarySearch c pivot xs (mid + 1) right \<le> i \<and> i < right \<longrightarrow> key pivot < key (xs ! i))"
        using "1.IH"(2) [OF lr mid_def False "1.prems"(1,2)] mid "1.prems"(4) by simp
      have "key (xs ! i) \<le> key pivot" if "i \<le> mid" for i
      proof -
        have "key (xs ! i) \<le> key (xs ! mid)" using that midlen by (intro nth_mono) simp_all
        with ge show ?thesis by simp
      qed
      then have low: "\<forall>i. left \<le> i \<and> i < binarySearch c pivot xs (mid + 1) right \<longrightarrow> key (xs ! i) \<le> key pivot"
        using IH by (metis Suc_eq_plus1 not_less_eq_eq)
      show ?thesis unfolding eq using IH low mid by auto
    qed
  qed
qed

lemma consistentOn_less:
  "consistentOn c key S \<Longrightarrow> x \<in> S \<Longrightarrow> y \<in> S \<Longrightarrow> (sortCompare c x y < 0) = (key x < key y)"
  by (simp add: consistentOn_def sortCompare_def)

lemma consistentOn_subset: "consistentOn c key S \<Longrightarrow> T \<subseteq> S \<Longrightarrow> consistentOn c key T"
  by (auto simp: consistentOn_def)

lemma binaryInsert_stable:
  assumes c: "consistentOn c key (insert p (set pre))" and s: "sorted (map key pre)"
  shows "sorted (map key (binaryInsert c pre p))"
    and "mset (binaryInsert c pre p) = mset (pre @ [p])"
    and "filter (\<lambda>x. key x = k) (binaryInsert c pre p) = filter (\<lambda>x. key x = k) (pre @ [p])"
proof -
  define r where "r = binarySearch c p pre 0 (length pre)"
  have cmp: "\<forall>y\<in>set pre. (sortCompare c p y < 0) = (key p < key y)"
    using consistentOn_less [OF c] by simp
  have bs: "r \<le> length pre"
    "\<forall>i. i < r \<longrightarrow> key (pre ! i) \<le> key p"
    "\<forall>i. r \<le> i \<and> i < length pre \<longrightarrow> key p < key (pre ! i)"
    using binarySearch_correct [OF cmp s, of 0 "length pre"] by (simp_all add: r_def)
  have low: "\<forall>x\<in>set (take r pre). key x \<le> key p"
  proof
    fix x assume "x \<in> set (take r pre)"
    then obtain i where "i < length (take r pre)" "take r pre ! i = x"
      by (auto simp: in_set_conv_nth)
    then show "key x \<le> key p" using bs(1,2) by auto
  qed
  have high: "\<forall>x\<in>set (drop r pre). key p < key x"
  proof
    fix x assume "x \<in> set (drop r pre)"
    then obtain i where i: "i < length (drop r pre)" "drop r pre ! i = x"
      by (auto simp: in_set_conv_nth)
    then have "pre ! (r + i) = x" using bs(1) by simp
    moreover have "r + i < length pre" using i(1) by simp
    ultimately show "key p < key x" using bs(3) by auto
  qed
  have b: "binaryInsert c pre p = take r pre @ [p] @ drop r pre"
    by (simp add: binaryInsert_def r_def Let_def)
  have st: "sorted (map key (take r pre))" and sd: "sorted (map key (drop r pre))"
    using s by (simp_all add: take_map [symmetric] drop_map [symmetric] sorted_wrt_take sorted_wrt_drop)
  show "sorted (map key (binaryInsert c pre p))"
    unfolding b using st sd low high
    by (auto simp: sorted_append) (meson less_imp_le order_trans)
  have "mset (take r pre) + mset (drop r pre) = mset pre"
    by (metis append_take_drop_id mset_append)
  then show "mset (binaryInsert c pre p) = mset (pre @ [p])"
    unfolding b by (simp add: ac_simps)
  have "filter (\<lambda>x. key x = k) (take r pre) @ filter (\<lambda>x. key x = k) (drop r pre)
      = filter (\<lambda>x. key x = k) pre"
    by (metis append_take_drop_id filter_append)
  moreover have "filter (\<lambda>x. key x = k) (drop r pre) = []" if "key p = k"
    using high that by (auto simp: filter_empty_conv)
  ultimately show "filter (\<lambda>x. key x = k) (binaryInsert c pre p) = filter (\<lambda>x. key x = k) (pre @ [p])"
    unfolding b by (cases "key p = k") auto
qed

lemma foldl_binaryInsert_stable:
  assumes "consistentOn c key (set run \<union> set rest)" and "sorted (map key run)"
  shows "sorted (map key (foldl (binaryInsert c) run rest))
       \<and> mset (foldl (binaryInsert c) run rest) = mset (run @ rest)
       \<and> filter (\<lambda>x. key x = k) (foldl (binaryInsert c) run rest) = filter (\<lambda>x. key x = k) (run @ rest)"
  using assms
proof (induction rest arbitrary: run)
  case Nil
  then show ?case by simp
next
  case (Cons p rest)
  have c1: "consistentOn c key (insert p (set run))"
    using Cons.prems(1) by (rule consistentOn_subset) auto
  note bi = binaryInsert_stable [OF c1 Cons.prems(2)]
  have "set (binaryInsert c run p) = set (run @ [p])"
    using bi(2) by (metis set_mset_mset)
  then have c2: "consistentOn c key (set (binaryInsert c run p) \<union> set rest)"
    using Cons.prems(1) by (auto elim: consistentOn_subset)
  from Cons.IH [OF c2 bi(1)] show ?case
    using bi(2) bi(3) [of k] by simp
qed

lemma runLength_ascending:
  assumes "consistentOn c key (insert prev (set rest))"
  shows "sorted (map key (prev # take (runLength c False prev rest) rest))"
  using assms
proof (induction rest arbitrary: prev)
  case Nil
  then show ?case by simp
next
  case (Cons x rest)
  have lt: "(sortCompare c x prev < 0) = (key x < key prev)"
    using Cons.prems by (intro consistentOn_less [of c key "insert prev (set (x # rest))"]) auto
  have c': "consistentOn c key (insert x (set rest))"
    using Cons.prems by (rule consistentOn_subset) auto
  show ?case
  proof (cases "key x < key prev")
    case True
    then show ?thesis by (simp add: lt Let_def)
  next
    case False
    then have "key prev \<le> key x" by simp
    moreover have "sorted (map key (x # take (runLength c False x rest) rest))"
      by (rule Cons.IH [OF c'])
    ultimately show ?thesis using False by (fastforce simp: lt Let_def)
  qed
qed

lemma runLength_descending:
  assumes "consistentOn c key (insert prev (set rest))"
  shows "sorted_wrt (\<lambda>a b. key b < key a) (prev # take (runLength c True prev rest) rest)"
  using assms
proof (induction rest arbitrary: prev)
  case Nil
  then show ?case by simp
next
  case (Cons x rest)
  have lt: "(sortCompare c x prev < 0) = (key x < key prev)"
    using Cons.prems by (intro consistentOn_less [of c key "insert prev (set (x # rest))"]) auto
  have c': "consistentOn c key (insert x (set rest))"
    using Cons.prems by (rule consistentOn_subset) auto
  show ?case
  proof (cases "key x < key prev")
    case False
    then show ?thesis using lt by (simp add: Let_def not_le)
  next
    case True
    have "sorted_wrt (\<lambda>a b. key b < key a) (x # take (runLength c True x rest) rest)"
      by (rule Cons.IH [OF c'])
    then show ?thesis using True lt by (auto simp: Let_def not_le)
  qed
qed

lemma filter_key_distinct: "distinct (map f l) \<Longrightarrow> length (filter (\<lambda>x. f x = k) l) \<le> 1"
proof (induction l)
  case Nil
  then show ?case by simp
next
  case (Cons a l)
  show ?case
  proof (cases "f a = k")
    case True
    then have "\<forall>x\<in>set l. f x \<noteq> k" using Cons.prems by (metis distinct.simps(2) image_eqI list.simps(9) set_map)
    then have "filter (\<lambda>x. f x = k) l = []" by (simp add: filter_empty_conv)
    then show ?thesis using True by simp
  next
    case False
    then show ?thesis using Cons by simp
  qed
qed

lemma descending_distinct: "sorted_wrt (\<lambda>a b. b < a) (ks :: 'b::order list) \<Longrightarrow> distinct ks"
  by (induction ks) auto

lemma rev_short: "length l \<le> 1 \<Longrightarrow> rev l = l"
  by (cases l) auto

lemma descending_rev:
  assumes "sorted_wrt (\<lambda>a b. key b < key a) l"
  shows "sorted (map key (rev l))" and "filter (\<lambda>x. key x = k) (rev l) = filter (\<lambda>x. key x = k) l"
proof -
  have "sorted_wrt (\<lambda>a b. key a < key b) (rev l)"
    using assms by (simp add: sorted_wrt_rev)
  then have "sorted_wrt (\<lambda>a b. key a \<le> key b) (rev l)"
    by (rule sorted_wrt_mono_rel [rotated]) simp
  then show "sorted (map key (rev l))" by (simp add: sorted_map)
  have "sorted_wrt (\<lambda>a b. a > b) (map key l)"
    using assms by (simp add: sorted_wrt_map)
  then have "distinct (map key l)"
    by (rule descending_distinct)
  then have "length (filter (\<lambda>x. key x = k) l) \<le> 1" by (rule filter_key_distinct)
  then have "rev (filter (\<lambda>x. key x = k) l) = filter (\<lambda>x. key x = k) l" by (rule rev_short)
  then show "filter (\<lambda>x. key x = k) (rev l) = filter (\<lambda>x. key x = k) l"
    by (simp add: rev_filter)
qed

lemma countAndMakeRun_stable:
  assumes "consistentOn c key (set xs)" and "countAndMakeRun c xs = (run, rest)"
  shows "sorted (map key run)" and "mset (run @ rest) = mset xs"
    and "filter (\<lambda>x. key x = k) (run @ rest) = filter (\<lambda>x. key x = k) xs"
proof -
  show "sorted (map key run)" "mset (run @ rest) = mset xs"
    "filter (\<lambda>x. key x = k) (run @ rest) = filter (\<lambda>x. key x = k) xs"
  proof (atomize (full), cases xs)
    case Nil
    then show "sorted (map key run) \<and> mset (run @ rest) = mset xs \<and>
      filter (\<lambda>x. key x = k) (run @ rest) = filter (\<lambda>x. key x = k) xs"
      using assms(2) by (auto simp: countAndMakeRun_def)
  next
    case (Cons a ys)
    show "sorted (map key run) \<and> mset (run @ rest) = mset xs \<and>
      filter (\<lambda>x. key x = k) (run @ rest) = filter (\<lambda>x. key x = k) xs"
    proof (cases ys)
      case Nil
      then show ?thesis using assms(2) Cons by (auto simp: countAndMakeRun_def)
    next
      case ys: (Cons b zs)
      define desc where "desc = (sortCompare c b a < 0)"
      define n where "n = 2 + runLength c desc b zs"
      have xs: "xs = a # b # zs" using Cons ys by simp
      have lt: "desc = (key b < key a)"
        unfolding desc_def using assms(1) by (intro consistentOn_less [of c key "set xs"]) (simp_all add: xs)
      have cb: "consistentOn c key (insert b (set zs))"
        using assms(1) by (rule consistentOn_subset) (auto simp: xs)
      have tk: "take n xs = a # b # take (runLength c desc b zs) zs"
        by (simp add: n_def xs)
      have rr: "run = (if desc then rev (take n xs) else take n xs)" "rest = drop n xs"
        using assms(2) by (auto simp: countAndMakeRun_def xs desc_def n_def Let_def)
      have m: "mset (run @ rest) = mset xs"
      proof -
        have "mset (take n xs @ drop n xs) = mset xs" by simp
        then show ?thesis unfolding rr by (auto simp del: append_take_drop_id)
      qed
      show ?thesis
      proof (cases desc)
        case False
        then have "key a \<le> key b" using lt by simp
        moreover have "sorted (map key (b # take (runLength c False b zs) zs))"
          using cb by (rule runLength_ascending)
        ultimately have "sorted (map key (take n xs))"
          using False by (auto simp: tk)
        then show ?thesis using False m by (simp add: rr)
      next
        case True
        then have "key b < key a" using lt by simp
        moreover have "sorted_wrt (\<lambda>x y. key y < key x) (b # take (runLength c True b zs) zs)"
          using cb by (rule runLength_descending)
        ultimately have d: "sorted_wrt (\<lambda>x y. key y < key x) (take n xs)"
          using True by (auto simp: tk)
        have "filter (\<lambda>x. key x = k) (rev (take n xs) @ drop n xs)
            = filter (\<lambda>x. key x = k) (take n xs) @ filter (\<lambda>x. key x = k) (drop n xs)"
          using descending_rev(2) [OF d, of k] by simp
        also have "\<dots> = filter (\<lambda>x. key x = k) xs"
          by (metis append_take_drop_id filter_append)
        finally show ?thesis using True m descending_rev(1) [OF d] by (simp add: rr)
      qed
    qed
  qed
qed

lemma Array_sort_consistent:
  assumes "consistentOn c key (set xs)"
  shows "Array_sort c xs = sort_key key xs"
proof (cases "length xs < 2")
  case True
  then have "xs = [] \<or> (\<exists>x. xs = [x])"
    by (cases xs) (auto simp: length_Suc_conv)
  then show ?thesis by (auto simp: Array_sort_def)
next
  case False
  obtain run rest where cr: "countAndMakeRun c xs = (run, rest)"
    by (cases "countAndMakeRun c xs")
  note r = countAndMakeRun_stable [OF assms cr]
  have "set (run @ rest) = set xs" using r(2) by (metis set_mset_mset)
  then have c': "consistentOn c key (set run \<union> set rest)" using assms by simp
  let ?ys = "foldl (binaryInsert c) run rest"
  have ys: "Array_sort c xs = ?ys" using False by (simp add: Array_sort_def cr)
  have f: "sorted (map key ?ys)" "mset ?ys = mset (run @ rest)"
    "\<And>k. filter (\<lambda>x. key x = k) ?ys = filter (\<lambda>x. key x = k) (run @ rest)"
    using foldl_binaryInsert_stable [OF c' r(1)] by blast+
  have "sort_key key xs = ?ys"
  proof (rule properties_for_sort_key)
    show "mset ?ys = mset xs" using f(2) r(2) by simp
    show "sorted (map key ?ys)" by (rule f(1))
    fix j
    have "filter (\<lambda>x. key x = key j) ?ys = filter (\<lambda>x. key x = key j) xs"
      using f(3) [of "key j"] r(3) [of "key j"] by simp
    then show "filter (\<lambda>x. key j = key x) ?ys = filter (\<lambda>x. key j = key x) xs"
      by (simp add: eq_commute [of "key j"])
  qed
  then show ?thesis using ys by simp
qed

lemma sortTransactions_sort_key:
  assumes "\<forall>t\<in>set ledger. validDate D t"
  shows "sortTransactions D ledger = sort_key (\<lambda>t. the (D (date t))) ledger"
proof -
  have "consistentOn (\<lambda>a b. num_sub (timeValue D (date a)) (timeValue D (date b)))
      (\<lambda>t. the (D (date t))) (set ledger)"
    unfolding consistentOn_def
  proof (intro ballI)
    fix x y assume "x \<in> set ledger" "y \<in> set ledger"
    then have "validDate D x" and "validDate D y" using assms by auto
    then obtain a b where "D (date x) = Some a" "D (date y) = Some b"
      by (auto simp: validDate_def)
    then show "num_sub (timeValue D (date x)) (timeValue D (date y))
        = Some (real_of_int (the (D (date x)) - the (D (date y))))"
      by (simp add: timeValue_def num_simps)
  qed
  then show ?thesis
    unfolding sortTransactions_def by (rule Array_sort_consistent)
qed

lemma sortTransactions_stable:
  assumes "\<forall>t\<in>set ledger. validDate D t"
  shows "filter (onDate D k) (sortTransactions D ledger) = filter (onDate D k) ledger"
proof -
  have eq: "onDate D k t = (the (D (date t)) = k)" if "validDate D t" for t
    using that by (auto simp: onDate_def validDate_def)
  have "filter (onDate D k) (sort_key (\<lambda>t. the (D (date t))) ledger)
      = filter (\<lambda>t. the (D (date t)) = k) (sort_key (\<lambda>t. the (D (date t))) ledger)"
    using assms by (intro filter_cong refl eq) simp
  also have "\<dots> = filter (\<lambda>t. the (D (date t)) = k) ledger"
    by (rule sort_key_stable)
  also have "\<dots> = filter (onDate D k) ledger"
    using assms by (intro filter_cong refl eq [symmetric]) simp
  finally show ?thesis
    using assms by (simp add: sortTransactions_sort_key)
qed

lemma set_sortTransactions:
  "\<forall>t\<in>set ledger. validDate D t \<Longrightarrow> set (sortTransactions D ledger) = set ledger"
  by (simp add: sortTransactions_sort_key)

lemma mutations_keep_insertion_order:
  assumes "\<forall>t\<in>set (transactions w). validDate D t"
    and "\<forall>t\<in>set (inserted ms). validDate D t"
    and "filter (onDate D k) (transactions w) = filter (onDate D k) h"
  shows "filter (onDate D k) (transactions (mutations D ms w))
       = filter (onDate D k) (insertionOrder ms h)"
  using assms
proof (induction ms arbitrary: w h)
  case Nil
  then show ?case by simp
next
  case (Cons m ms)
  show ?case
  proof (cases m)
    case (Insert t)
    have v: "\<forall>x\<in>set (transactions w @ [t]). validDate D x"
      using Cons.prems(1,2) Insert by simp
    have "filter (onDate D k) (transactions (mutate D m w))
        = filter (onDate D k) (transactions w @ [t])"
      using v by (simp add: Insert addTransaction_def sortTransactions_stable)
    also have "\<dots> = filter (onDate D k) (insertionStep m h)"
      using Cons.prems(3) by (simp add: Insert)
    finally have f: "filter (onDate D k) (transactions (mutate D m w))
        = filter (onDate D k) (insertionStep m h)" .
    have v': "\<forall>x\<in>set (transactions (mutate D m w)). validDate D x"
      using v by (simp add: Insert addTransaction_def set_sortTransactions)
    have "\<forall>t\<in>set (inserted ms). validDate D t"
      using Cons.prems(2) Insert by simp
    from Cons.IH [OF v' this f] show ?thesis by simp
  next
    case (Remove i confirmed)
    have "filter (onDate D k) (filter (\<lambda>t. id' t \<noteq> i) (transactions w))
        = filter (\<lambda>t. id' t \<noteq> i) (filter (onDate D k) (transactions w))"
      by (simp add: conj_commute)
    also have "\<dots> = filter (onDate D k) (filter (\<lambda>t. id' t \<noteq> i) h)"
      by (simp add: Cons.prems(3) conj_commute)
    finally have f: "filter (onDate D k) (transactions (mutate D m w))
        = filter (onDate D k) (insertionStep m h)"
      using Cons.prems(3) by (simp add: Remove deleteTransaction_transactions)
    have v': "\<forall>x\<in>set (transactions (mutate D m w)). validDate D x"
      using Cons.prems(1) by (simp add: Remove deleteTransaction_transactions)
    have "\<forall>t\<in>set (inserted ms). validDate D t"
      using Cons.prems(2) Remove by simp
    from Cons.IH [OF v' this f] show ?thesis by simp
  qed
qed

text \<open>
  C9, as the code has it. On a ledger whose dates all parse, and with inserts of
  transactions whose dates parse, after any sequence of inserts and removals the
  transactions of any one date stand in the ledger in the order of their insertion:
  the sort after each insert is stable on equal dates, and a removal keeps the order
  of what remains.
\<close>

theorem same_date_keeps_insertion_order:
  assumes "\<forall>t\<in>set (transactions w). validDate D t"
    and "\<forall>t\<in>set (inserted ms). validDate D t"
  shows "filter (onDate D k) (transactions (mutations D ms w))
       = filter (onDate D k) (insertionOrder ms (transactions w))"
  using assms by (intro mutations_keep_insertion_order) simp_all

theorem same_date_keeps_insertion_order_witness:
  "filter (onDate isoDate 1675209600000)
     (transactions (mutations isoDate
        [Insert \<lparr>date = ''2023-02-01'', type = ''Payment'', amount = 100, notes' = '''',
                  id' = ''txn_a'', timestamp = ''''\<rparr>,
         Insert \<lparr>date = ''2023-01-01'', type = ''Loan Out'', amount = 1000, notes' = '''',
                  id' = ''txn_b'', timestamp = ''''\<rparr>,
         Insert \<lparr>date = ''2023-02-01'', type = ''Loan Out'', amount = 50, notes' = '''',
                  id' = ''txn_c'', timestamp = ''''\<rparr>,
         Remove ''txn_b'' True]
        \<lparr>transactions = [], notifications = []\<rparr>))
   = [\<lparr>date = ''2023-02-01'', type = ''Payment'', amount = 100, notes' = '''',
         id' = ''txn_a'', timestamp = ''''\<rparr>,
      \<lparr>date = ''2023-02-01'', type = ''Loan Out'', amount = 50, notes' = '''',
         id' = ''txn_c'', timestamp = ''''\<rparr>]"
proof -
  let ?a = "\<lparr>date = ''2023-02-01'', type = ''Payment'', amount = 100, notes' = '''',
                  id' = ''txn_a'', timestamp = ''''\<rparr>"
  let ?b = "\<lparr>date = ''2023-01-01'', type = ''Loan Out'', amount = 1000, notes' = '''',
                  id' = ''txn_b'', timestamp = ''''\<rparr>"
  let ?c = "\<lparr>date = ''2023-02-01'', type = ''Loan Out'', amount = 50, notes' = '''',
                  id' = ''txn_c'', timestamp = ''''\<rparr>"
  let ?ms = "[Insert ?a, Insert ?b, Insert ?c, Remove ''txn_b'' True]"
  let ?w = "\<lparr>transactions = [], notifications = []\<rparr>"
  have h1: "\<forall>t\<in>set (transactions ?w). validDate isoDate t" by simp
  have h2: "\<forall>t\<in>set (inserted ?ms). validDate isoDate t"
    by (simp add: validDate_def isoDate_2023_01_01 isoDate_2023_02_01)
  show ?thesis
    using same_date_keeps_insertion_order [OF h1 h2, of 1675209600000]
    by (simp add: onDate_def isoDate_2023_01_01 isoDate_2023_02_01)
qed

text \<open>
  Without that condition the order of equal dates is not kept. A transaction with an
  empty date passes the validation and its date does not parse, so that the comparator
  gives \<open>NaN\<close> against it. After eight inserts, the fifth with the empty date, the
  eighth transaction stands before the sixth, both dated 2023-01-01.
\<close>

theorem same_date_reordered_after_empty_date:
  "map id' (transactions (mutations isoDate
      [Insert \<lparr>date = ''2023-01-01'', type = ''Loan Out'', amount = 10, notes' = '''',
               id' = ''t1'', timestamp = ''''\<rparr>,
       Insert \<lparr>date = ''2023-01-01'', type = ''Loan Out'', amount = 10, notes' = '''',
               id' = ''t2'', timestamp = ''''\<rparr>,
       Insert \<lparr>date = ''2023-01-01'', type = ''Loan Out'', amount = 10, notes' = '''',
               id' = ''t3'', timestamp = ''''\<rparr>,
       Insert \<lparr>date = ''2023-02-01'', type = ''Loan Out'', amount = 10, notes' = '''',
               id' = ''t4'', timestamp = ''''\<rparr>,
       Insert \<lparr>date = '''', type = ''Loan Out'', amount = 10, notes' = '''',
               id' = ''t5'', timestamp = ''''\<rparr>,
       Insert \<lparr>date = ''2023-01-01'', type = ''Loan Out'', amount = 10, notes' = '''',
               id' = ''t6'', timestamp = ''''\<rparr>,
       Insert \<lparr>date = ''2023-02-01'', type = ''Loan Out'', amount = 10, notes' = '''',
               id' = ''t7'', timestamp = ''''\<rparr>,
       Insert \<lparr>date = ''2023-01-01'', type = ''Loan Out'', amount = 10, notes' = '''',
               id' = ''t8'', timestamp = ''''\<rparr>]
      \<lparr>transactions = [], notifications = []\<rparr>))
   = [''t1'', ''t2'', ''t3'', ''t8'', ''t4'', ''t5'', ''t6'', ''t7'']"
  by (simp add: addTransaction_def sortTransactions_def Array_sort_def countAndMakeRun_def
      sortCompare_def timeValue_def isoDate_2023_01_01 isoDate_2023_02_01 isoDate_empty
      num_simps num_NaN binaryInsert_def binarySearch.simps Let_def)

subsection \<open>Notes\<close>

lemma dropWhile_all: "list_all P xs \<Longrightarrow> dropWhile P (xs @ ys) = dropWhile P ys"
  by (induction xs) simp_all

lemma trim_core:
  assumes "list_all isWhiteSpace l" and "list_all isWhiteSpace r"
    and "m \<noteq> []" and "\<not> isWhiteSpace (hd m)" and "\<not> isWhiteSpace (last m)"
  shows "trim (l @ m @ r) = m"
proof -
  have "dropWhile isWhiteSpace (l @ m @ r) = dropWhile isWhiteSpace (m @ r)"
    using assms(1) by (rule dropWhile_all)
  also have "\<dots> = m @ r"
    using assms(3,4) by (cases m) simp_all
  finally have a: "dropWhile isWhiteSpace (l @ m @ r) = m @ r" .
  have "dropWhile isWhiteSpace (rev (m @ r)) = dropWhile isWhiteSpace (rev r @ rev m)"
    by simp
  also have "\<dots> = dropWhile isWhiteSpace (rev m)"
    using assms(2) by (intro dropWhile_all) (simp add: list_all_iff)
  also have "\<dots> = rev m"
    using assms(3,5) by (cases m rule: rev_cases) simp_all
  finally show ?thesis by (simp add: trim_def a)
qed

lemma trim_blank:
  assumes "list_all isWhiteSpace s"
  shows "trim s = []"
proof -
  have d: "dropWhile isWhiteSpace s = []"
    using assms by (simp add: list_all_iff)
  show ?thesis unfolding trim_def d by simp
qed

text \<open>
  C10. \<open>validateNotes\<close> trims before it sanitizes and measures: notes made of white
  space only give the empty string, not an error; and for notes \<open>m\<close> that begin and
  end with a character that is not white space, any white space around \<open>m\<close> is
  dropped, so that the result and the check against the 500-character limit are those
  of the sanitized \<open>m\<close> alone.
\<close>

theorem validateNotes_trims_first:
  "(list_all isWhiteSpace n \<longrightarrow> validateNotes n = Inr [])
   \<and> (list_all isWhiteSpace l \<and> list_all isWhiteSpace r
        \<and> m \<noteq> [] \<and> \<not> isWhiteSpace (hd m) \<and> \<not> isWhiteSpace (last m) \<longrightarrow>
      validateNotes (l @ m @ r) =
        (if MAX_NOTE_LENGTH < length (sanitizeHtml m)
         then Inl (ValidationError NOTES_TOO_LONG ''notes'' ''TOO_LONG'')
         else Inr (sanitizeHtml m)))"
proof (intro conjI impI)
  assume "list_all isWhiteSpace n"
  then show "validateNotes n = Inr []"
    by (simp add: validateNotes_def isEmpty_def trim_blank)
next
  assume a: "list_all isWhiteSpace l \<and> list_all isWhiteSpace r
        \<and> m \<noteq> [] \<and> \<not> isWhiteSpace (hd m) \<and> \<not> isWhiteSpace (last m)"
  then have "trim (l @ m @ r) = m" by (intro trim_core) simp_all
  then show "validateNotes (l @ m @ r) =
        (if MAX_NOTE_LENGTH < length (sanitizeHtml m)
         then Inl (ValidationError NOTES_TOO_LONG ''notes'' ''TOO_LONG'')
         else Inr (sanitizeHtml m))"
    using a by (simp add: validateNotes_def isEmpty_def Let_def)
qed

theorem validateNotes_trims_first_witness:
  "validateNotes [CHR 0x20, CHR 0x09, CHR 0x0A] = Inr []
   \<and> validateNotes ''  a <b>  '' = Inr ''a &lt;b&gt;''"
proof -
  have ws: "list_all isWhiteSpace [CHR 0x20, CHR 0x09, CHR 0x0A]"
    by (simp add: isWhiteSpace_def)
  have a: "validateNotes [CHR 0x20, CHR 0x09, CHR 0x0A] = Inr []"
    using validateNotes_trims_first [of "[CHR 0x20, CHR 0x09, CHR 0x0A]"] ws by blast
  have h: "list_all isWhiteSpace ''  '' \<and> list_all isWhiteSpace ''  ''
        \<and> ''a <b>'' \<noteq> [] \<and> \<not> isWhiteSpace (hd ''a <b>'') \<and> \<not> isWhiteSpace (last ''a <b>'')"
    by (simp add: isWhiteSpace_def)
  have "validateNotes (''  '' @ ''a <b>'' @ ''  '') =
        (if MAX_NOTE_LENGTH < length (sanitizeHtml ''a <b>'')
         then Inl (ValidationError NOTES_TOO_LONG ''notes'' ''TOO_LONG'')
         else Inr (sanitizeHtml ''a <b>''))"
    using validateNotes_trims_first [of _ "''  ''" "''  ''" "''a <b>''"] h by blast
  then have b: "validateNotes ''  a <b>  '' = Inr ''a &lt;b&gt;''"
    by (simp add: sanitizeHtml_def escapeChar_def MAX_NOTE_LENGTH_def)
  from a b show ?thesis by simp
qed

subsection \<open>Every failing field is reported\<close>

lemma errors_addWarning: "errors (addWarning f m c v) = errors v"
  by (simp add: addWarning_def)

lemma errors_checkForDuplicates: "errors (checkForDuplicates c ex v) = errors v"
  by (simp add: checkForDuplicates_def errors_addWarning split: option.splits)

lemma addEntry_new:
  assumes "f \<notin> fst ` set m"
  shows "addEntry f e m = m @ [(f, [e])]"
proof -
  have "map_of m f = None" using assms by (simp add: map_of_eq_None_iff)
  then show ?thesis by (simp add: addEntry_def)
qed

lemma errors_after_date:
  "errors (case parseDate D s of
             Inr d \<Rightarrow> if isFutureDate eot d
                      then addWarning ''date'' FUTURE_DATE_WARNING ''FUTURE_DATE'' (clear v) else clear v
           | Inl error \<Rightarrow> addError ''date'' (message error) (code error) (clear v))
   = fieldErrors ''date'' (parseDate D s)"
  by (cases "parseDate D s")
     (simp_all add: fieldErrors_def clear_def addError_def addWarning_def addEntry_def)

lemma errors_after_field:
  assumes "f \<notin> fst ` set (errors v)"
  shows "errors (case r of Inr x \<Rightarrow> v | Inl error \<Rightarrow> addError f (message error) (code error) v)
       = errors v @ fieldErrors f r"
  using assms by (cases r) (simp_all add: fieldErrors_def addError_def addEntry_new)

lemma keys_fieldErrors: "fst ` set (fieldErrors f r) \<subseteq> {f}"
  by (cases r) (simp_all add: fieldErrors_def)

text \<open>
  C7. The \<open>errors\<close> object that \<open>validateTransaction\<close> leaves holds, in the order
  date, amount, type, notes, one entry for every field whose validator fails and
  nothing else, whatever the other fields do; the result is valid exactly when it is
  empty.
\<close>

theorem validateTransaction_reports_every_failure:
  "errors (snd (validateTransaction D endOfToday c existing v))
     = fieldErrors ''date'' (parseDate D (date c))
       @ fieldErrors ''amount'' (parseAmount (amount c))
       @ fieldErrors ''type'' (validateTransactionType (type c))
       @ fieldErrors ''notes'' (validateNotes (notes' c))
   \<and> fst (validateTransaction D endOfToday c existing v)
     = (errors (snd (validateTransaction D endOfToday c existing v)) = [])"
proof -
  let ?v1 = "case parseDate D (date c) of
             Inr d \<Rightarrow> if isFutureDate endOfToday d
                      then addWarning ''date'' FUTURE_DATE_WARNING ''FUTURE_DATE'' (clear v) else clear v
           | Inl error \<Rightarrow> addError ''date'' (message error) (code error) (clear v)"
  let ?v2 = "case parseAmount (amount c) of Inr a \<Rightarrow> ?v1
             | Inl error \<Rightarrow> addError ''amount'' (message error) (code error) ?v1"
  let ?v3 = "case validateTransactionType (type c) of Inr t \<Rightarrow> ?v2
             | Inl error \<Rightarrow> addError ''type'' (message error) (code error) ?v2"
  let ?v4 = "case validateNotes (notes' c) of Inr n \<Rightarrow> ?v3
             | Inl error \<Rightarrow> addError ''notes'' (message error) (code error) ?v3"
  have e1: "errors ?v1 = fieldErrors ''date'' (parseDate D (date c))"
    by (rule errors_after_date)
  have k1: "fst ` set (errors ?v1) \<subseteq> {''date''}"
    unfolding e1 by (rule keys_fieldErrors)
  have e2: "errors ?v2 = errors ?v1 @ fieldErrors ''amount'' (parseAmount (amount c))"
    using k1 by (intro errors_after_field) auto
  have k2: "fst ` set (errors ?v2) \<subseteq> {''date'', ''amount''}"
    unfolding e2 using k1 keys_fieldErrors [of "''amount''" "parseAmount (amount c)"] by auto
  have e3: "errors ?v3 = errors ?v2 @ fieldErrors ''type'' (validateTransactionType (type c))"
    using k2 by (intro errors_after_field) auto
  have k3: "fst ` set (errors ?v3) \<subseteq> {''date'', ''amount'', ''type''}"
    unfolding e3 using k2 keys_fieldErrors [of "''type''" "validateTransactionType (type c)"] by auto
  have e4: "errors ?v4 = errors ?v3 @ fieldErrors ''notes'' (validateNotes (notes' c))"
    using k3 by (intro errors_after_field) auto
  have r: "validateTransaction D endOfToday c existing v =
      (\<not> hasErrors (checkForDuplicates c existing ?v4), checkForDuplicates c existing ?v4)"
    by (simp add: validateTransaction_def Let_def)
  have "errors (snd (validateTransaction D endOfToday c existing v)) = errors ?v4"
    by (simp only: r snd_conv errors_checkForDuplicates)
  moreover have "fst (validateTransaction D endOfToday c existing v) = (errors ?v4 = [])"
    by (simp only: r fst_conv hasErrors_def errors_checkForDuplicates) simp
  ultimately show ?thesis
    by (simp only: e4 e3 e2 e1 append_assoc)
qed

theorem validateTransaction_reports_every_failure_witness:
  "errors (snd (validateTransaction isoDate 1700000000000
       \<lparr>date = ''yesterday'', type = ''Gift'', amount = ''abc'', notes' = replicate 501 (CHR ''<'')\<rparr>
       [] \<lparr>errors = [], warnings = []\<rparr>))
   = [(''date'', [(''Please enter a valid date'', ''INVALID_DATE'')]),
      (''amount'', [(''Please enter a valid amount'', ''INVALID_NUMBER'')]),
      (''type'', [(''Invalid transaction type'', ''INVALID_TYPE'')]),
      (''notes'', [(''Notes cannot exceed 500 characters'', ''TOO_LONG'')])]"
proof -
  have d: "parseDate isoDate ''yesterday'' = Inl (ValidationError INVALID_DATE ''date'' ''INVALID_DATE'')"
    by (simp add: parseDate_def isoDate_def)
  have a: "parseAmount ''abc'' = Inl (ValidationError INVALID_AMOUNT ''amount'' ''INVALID_NUMBER'')"
    by (simp add: parseAmount_def isEmpty_def trim_def isWhiteSpace_def parseFloat_def
        scanFloat_def scanLiteral_def trimStart_def scanSign_def isDigit_def)
  have t: "validateTransactionType ''Gift'' =
      Inl (ValidationError ''Invalid transaction type'' ''type'' ''INVALID_TYPE'')"
    by (simp add: validateTransactionType_def)
  have n: "validateNotes (replicate 501 (CHR ''<'')) =
      Inl (ValidationError NOTES_TOO_LONG ''notes'' ''TOO_LONG'')"
  proof -
    have "trim (replicate 501 (CHR ''<'')) = replicate 501 (CHR ''<'')"
      using trim_core [of "[]" "[]" "replicate 501 (CHR ''<'')"]
      by (simp add: isWhiteSpace_def)
    moreover have "length (sanitizeHtml (replicate 501 (CHR ''<''))) = 2004"
      by (simp add: sanitizeHtml_def escapeChar_def length_concat sum_list_replicate)
    ultimately show ?thesis
      by (simp add: validateNotes_def isEmpty_def MAX_NOTE_LENGTH_def Let_def)
  qed
  show ?thesis
    using validateTransaction_reports_every_failure [of isoDate 1700000000000
        "\<lparr>date = ''yesterday'', type = ''Gift'', amount = ''abc'', notes' = replicate 501 (CHR ''<'')\<rparr>"
        "[]" "\<lparr>errors = [], warnings = []\<rparr>"]
    by (simp add: d a t n fieldErrors_def INVALID_DATE_def INVALID_AMOUNT_def NOTES_TOO_LONG_def)
qed

subsection \<open>Doubles\<close>

text \<open>
  Rounding to a double is monotone and moves a number by at most half the spacing of
  the doubles around it; the doubles are the multiples of their spacing, and the
  difference of two nearby doubles is one of them.
\<close>

lemma binade_numeral:
  "binade (numeral k) x =
     (if 2 \<le> x then binade (pred_numeral k) (x / 2) + 1
      else if x < 1 then binade (pred_numeral k) (x * 2) - 1
      else 0)"
  by (simp add: numeral_eq_Suc)

lemmas fl_eval = fl_def quantum_def binade_numeral roundHalfEven_def Let_def

lemma pow2_Suc: "(2::real) powi (e + 1) = 2 * 2 powi e"
  by (simp add: power_int_add)

lemma pow2_pred: "(2::real) powi (e - 1) = 2 powi e / 2"
  by (simp add: power_int_diff)

lemma binade_correct:
  assumes "2 powi (- int n) \<le> x" and "x < 2 powi (int n + 1)"
  shows "2 powi (binade n x) \<le> x \<and> x < 2 powi (binade n x + 1)"
  using assms
proof (induction n arbitrary: x)
  case 0
  then show ?case by simp
next
  case (Suc n)
  show ?case
  proof (cases "2 \<le> x")
    case True
    have a: "2 powi (- int n) \<le> x / 2"
    proof -
      have "(2::real) powi (- int n) \<le> 2 powi 0"
        by (intro power_int_increasing) simp_all
      then show ?thesis using True by simp
    qed
    have b: "x / 2 < 2 powi (int n + 1)"
      using Suc.prems(2) by (simp add: power_int_add)
    from Suc.IH [OF a b] show ?thesis
      using True by (simp add: power_int_add)
  next
    case False
    show ?thesis
    proof (cases "x < 1")
      case True
      have a: "2 powi (- int n) \<le> x * 2"
        using Suc.prems(1) by (simp add: power_int_diff power_int_minus field_simps)
      have "(2::real) powi 1 \<le> 2 powi (int n + 1)"
        by (intro power_int_increasing) simp_all
      then have b: "x * 2 < 2 powi (int n + 1)"
        using True by simp
      from Suc.IH [OF a b] show ?thesis
        using True \<open>\<not> 2 \<le> x\<close> by (simp add: power_int_add power_int_diff field_simps)
    next
      case False
      then show ?thesis using \<open>\<not> 2 \<le> x\<close> by simp
    qed
  qed
qed

lemma roundHalfEven_cases: "roundHalfEven q = \<lfloor>q\<rfloor> \<or> roundHalfEven q = \<lfloor>q\<rfloor> + 1"
  by (simp add: roundHalfEven_def Let_def)

lemma roundHalfEven_near: "\<bar>real_of_int (roundHalfEven q) - q\<bar> \<le> 1 / 2"
  unfolding roundHalfEven_def Let_def by (auto simp: abs_if) linarith+

lemma roundHalfEven_ge_int: "real_of_int i \<le> q \<Longrightarrow> i \<le> roundHalfEven q"
proof -
  assume "real_of_int i \<le> q"
  then have "i \<le> \<lfloor>q\<rfloor>" by (simp add: le_floor_iff)
  then show ?thesis using roundHalfEven_cases [of q] by auto
qed

lemma roundHalfEven_le_int: "q \<le> real_of_int i \<Longrightarrow> roundHalfEven q \<le> i"
proof -
  assume a: "q \<le> real_of_int i"
  show ?thesis
  proof (cases "q = real_of_int i")
    case True
    then show ?thesis by (simp add: roundHalfEven_def)
  next
    case False
    with a have "q < real_of_int i" by simp
    then have "\<lfloor>q\<rfloor> < i" by (simp add: floor_less_iff)
    then show ?thesis using roundHalfEven_cases [of q] by auto
  qed
qed

lemma roundHalfEven_mono: "q \<le> r \<Longrightarrow> roundHalfEven q \<le> roundHalfEven r"
proof -
  assume qr: "q \<le> r"
  then have fl: "\<lfloor>q\<rfloor> \<le> \<lfloor>r\<rfloor>" by (rule floor_mono)
  show ?thesis
  proof (cases "\<lfloor>q\<rfloor> = \<lfloor>r\<rfloor>")
    case True
    then show ?thesis using qr by (auto simp: roundHalfEven_def Let_def)
  next
    case False
    with fl have "\<lfloor>q\<rfloor> + 1 \<le> \<lfloor>r\<rfloor>" by simp
    then show ?thesis
      using roundHalfEven_cases [of q] roundHalfEven_cases [of r] by auto
  qed
qed

lemma quantum_pos: "0 < quantum x"
  by (simp add: quantum_def)

lemma fl_error: "\<bar>fl x - x\<bar> \<le> quantum x / 2"
proof -
  let ?q = "quantum x"
  have q: "0 < ?q" by (rule quantum_pos)
  have "fl x - x = ?q * (real_of_int (roundHalfEven (x / ?q)) - x / ?q)"
    using q by (simp add: fl_def field_simps)
  then have "\<bar>fl x - x\<bar> = ?q * \<bar>real_of_int (roundHalfEven (x / ?q)) - x / ?q\<bar>"
    using q by (simp add: abs_mult)
  also have "\<dots> \<le> ?q * (1 / 2)"
    using q roundHalfEven_near [of "x / ?q"] by (intro mult_left_mono) simp_all
  finally show ?thesis by simp
qed

lemma quantum_normal:
  assumes "2 powi (-1022) \<le> x"
  shows "quantum x = 2 powi (binade 1100 x - 52)"
proof -
  have "(0::real) < 2 powi (-1022)" by simp
  with assms have "0 < x" by linarith
  then show ?thesis using assms by (simp add: quantum_def)
qed

lemma binade_normal:
  assumes "2 powi (-1022) \<le> x" and "x < 2 powi 1024"
  shows "2 powi (binade 1100 x) \<le> x" and "x < 2 powi (binade 1100 x + 1)"
proof -
  have "(2::real) powi (- int 1100) \<le> 2 powi (-1022)"
    by (intro power_int_increasing) simp_all
  then have a: "2 powi (- int 1100) \<le> x" using assms(1) by linarith
  have "(2::real) powi 1024 \<le> 2 powi (int 1100 + 1)"
    by (intro power_int_increasing) simp_all
  then have b: "x < 2 powi (int 1100 + 1)" using assms(2) by linarith
  from binade_correct [OF a b]
  show "2 powi (binade 1100 x) \<le> x" and "x < 2 powi (binade 1100 x + 1)" by simp_all
qed

lemma fl_binade:
  assumes "2 powi (-1022) \<le> x" and "x < 2 powi 1024"
  shows "2 powi (binade 1100 x) \<le> fl x" and "fl x \<le> 2 powi (binade 1100 x + 1)"
proof -
  let ?e = "binade 1100 x"
  let ?q = "(2::real) powi (?e - 52)"
  have q: "quantum x = ?q" using assms(1) by (rule quantum_normal)
  have qpos: "0 < ?q" by simp
  have lo: "real_of_int (2 ^ 52) \<le> x / ?q"
  proof -
    have "2 powi ?e / ?q \<le> x / ?q"
      using binade_normal(1) [OF assms] qpos by (simp add: divide_right_mono)
    moreover have "2 powi ?e / ?q = (2::real) powi 52"
      by (simp add: power_int_diff)
    ultimately show ?thesis by simp
  qed
  have hi: "x / ?q \<le> real_of_int (2 ^ 53)"
  proof -
    have "x / ?q \<le> 2 powi (?e + 1) / ?q"
      using binade_normal(2) [OF assms] qpos by (simp add: divide_right_mono)
    moreover have "2 powi (?e + 1) / ?q = (2::real) powi 53"
      by (simp add: power_int_diff power_int_add)
    ultimately show ?thesis by simp
  qed
  have "real_of_int (2 ^ 52) \<le> real_of_int (roundHalfEven (x / ?q))"
    using roundHalfEven_ge_int [OF lo] by simp
  then have "?q * real_of_int (2 ^ 52) \<le> fl x"
    unfolding fl_def q using qpos by (intro mult_left_mono) simp_all
  moreover have "?q * real_of_int (2 ^ 52) = 2 powi ?e"
    by (simp add: power_int_diff)
  ultimately show "2 powi ?e \<le> fl x" by simp
  have "real_of_int (roundHalfEven (x / ?q)) \<le> real_of_int (2 ^ 53)"
    using roundHalfEven_le_int [OF hi] by simp
  then have "fl x \<le> ?q * real_of_int (2 ^ 53)"
    unfolding fl_def q using qpos by (intro mult_left_mono) simp_all
  moreover have "?q * real_of_int (2 ^ 53) = 2 powi (?e + 1)"
    by (simp add: power_int_diff power_int_add)
  ultimately show "fl x \<le> 2 powi (?e + 1)" by simp
qed

lemma pow2_less_imp_less: "(2::real) powi a < 2 powi b \<Longrightarrow> a < b"
proof (rule ccontr)
  assume l: "(2::real) powi a < 2 powi b" and "\<not> a < b"
  then have "(2::real) powi b \<le> 2 powi a"
    by (intro power_int_increasing) simp_all
  with l show False by simp
qed

lemma fl_mono:
  assumes "2 powi (-1022) \<le> x" and "x \<le> y" and "y < 2 powi 1024"
  shows "fl x \<le> fl y"
proof -
  let ?ex = "binade 1100 x" and ?ey = "binade 1100 y"
  have xr: "x < 2 powi 1024" and yr: "2 powi (-1022) \<le> y" using assms by linarith+
  have "2 powi ?ex \<le> x" using assms(1) xr by (rule binade_normal(1))
  also have "x \<le> y" by fact
  also have "y < 2 powi (?ey + 1)" using yr assms(3) by (rule binade_normal(2))
  finally have "(2::real) powi ?ex < 2 powi (?ey + 1)" .
  then have "?ex < ?ey + 1" by (rule pow2_less_imp_less)
  then consider "?ex = ?ey" | "?ex + 1 \<le> ?ey" by linarith
  then show ?thesis
  proof cases
    case 1
    let ?q = "(2::real) powi (?ex - 52)"
    have qx: "quantum x = ?q" using assms(1) by (rule quantum_normal)
    have qy: "quantum y = ?q" using quantum_normal [OF yr] 1 by simp
    have "x / ?q \<le> y / ?q" using assms(2) by (simp add: divide_right_mono)
    then have "roundHalfEven (x / ?q) \<le> roundHalfEven (y / ?q)" by (rule roundHalfEven_mono)
    then show ?thesis unfolding fl_def qx qy by (intro mult_left_mono) simp_all
  next
    case 2
    have "fl x \<le> 2 powi (?ex + 1)" using assms(1) xr by (rule fl_binade(2))
    also have "(2::real) powi (?ex + 1) \<le> 2 powi ?ey"
      using 2 by (intro power_int_increasing) simp_all
    also have "\<dots> \<le> fl y" using yr assms(3) by (rule fl_binade(1))
    finally show ?thesis .
  qed
qed

lemma roundHalfEven_minus: "roundHalfEven (- q) = - roundHalfEven q"
proof (cases "q = real_of_int \<lfloor>q\<rfloor>")
  case True
  then obtain k where q: "q = real_of_int k" ..
  have "- q = real_of_int (- k)" using q by simp
  then have "roundHalfEven (- q) = - k"
    by (simp only: roundHalfEven_def Let_def floor_of_int) simp
  moreover have "roundHalfEven q = k"
    unfolding q by (simp add: roundHalfEven_def)
  ultimately show ?thesis by simp
next
  case False
  then have f: "\<lfloor>- q\<rfloor> = - \<lfloor>q\<rfloor> - 1"
    by (simp add: floor_minus ceiling_altdef)
  show ?thesis
    unfolding roundHalfEven_def Let_def f by (auto simp: algebra_simps)
qed

lemma quantum_minus: "quantum (- x) = quantum x"
  by (simp add: quantum_def)

lemma fl_minus: "fl (- x) = - fl x"
  by (simp add: fl_def quantum_minus roundHalfEven_minus)

lemma fl_nonneg: "0 \<le> x \<Longrightarrow> 0 \<le> fl x"
proof -
  assume "0 \<le> x"
  then have "real_of_int 0 \<le> x / quantum x" using quantum_pos [of x] by simp
  then have "0 \<le> roundHalfEven (x / quantum x)" by (rule roundHalfEven_ge_int)
  then show ?thesis using quantum_pos [of x] by (simp add: fl_def)
qed

lemma fl_abs: "\<bar>fl x\<bar> = fl \<bar>x\<bar>"
proof (cases "0 \<le> x")
  case True
  then show ?thesis using fl_nonneg [of x] by simp
next
  case False
  then have "0 \<le> - x" by simp
  then have "0 \<le> fl (- x)" by (rule fl_nonneg)
  then show ?thesis using False by (simp add: fl_minus)
qed

lemma quantum_le:
  assumes "\<bar>x\<bar> < 2 powi (e + 1)" and "- 1022 \<le> e" and "e \<le> 1023"
  shows "quantum x \<le> 2 powi (e - 52)"
proof (cases "\<bar>x\<bar> < 2 powi (-1022)")
  case True
  have "(2::real) powi (-1074) \<le> 2 powi (e - 52)"
    using assms(2) by (intro power_int_increasing) simp_all
  then show ?thesis using True by (simp add: quantum_def)
next
  case False
  then have lo: "2 powi (-1022) \<le> \<bar>x\<bar>" by simp
  have "(2::real) powi (e + 1) \<le> 2 powi 1024"
    using assms(3) by (intro power_int_increasing) simp_all
  then have hi: "\<bar>x\<bar> < 2 powi 1024" using assms(1) by linarith
  have "2 powi (binade 1100 \<bar>x\<bar>) \<le> \<bar>x\<bar>" using lo hi by (rule binade_normal(1))
  then have "(2::real) powi (binade 1100 \<bar>x\<bar>) < 2 powi (e + 1)" using assms(1) by linarith
  then have "binade 1100 \<bar>x\<bar> < e + 1" by (rule pow2_less_imp_less)
  then have "(2::real) powi (binade 1100 \<bar>x\<bar> - 52) \<le> 2 powi (e - 52)"
    by (intro power_int_increasing) simp_all
  then show ?thesis using False by (simp add: quantum_def)
qed

lemma toDouble_not_NaN: "toDouble x \<noteq> NaN"
  by (simp add: toDouble_def)

lemma toDouble_Finite:
  "\<bar>x\<bar> < 2 powi 1024 - 2 powi 970 \<Longrightarrow> toDouble x = Finite (fl x)"
  by (simp add: toDouble_def abs_if split: if_splits)

lemma toDouble_Finite_iff:
  "toDouble x = Finite d \<longleftrightarrow> \<bar>x\<bar> < 2 powi 1024 - 2 powi 970 \<and> d = fl x"
  by (auto simp: toDouble_def abs_if split: if_splits)

lemma fl_0_01: "fl (1 / 100) = 5764607523034235 / 2 ^ 59"
  by (simp add: fl_eval)

lemma fl_max: "fl (99999999999 / 100) = 8388607999916114 / 2 ^ 23"
  by (simp add: fl_eval)

lemma fl_max_cents: "fl (fl (99999999999 / 100) * 100) = 99999999999"
  by (simp add: fl_max) (simp add: fl_eval)

lemma fl_min_cents: "fl (fl (1 / 100) * 100) = 1"
  by (simp add: fl_0_01) (simp add: fl_eval)

lemma pow2_le_imp_le: "(2::real) powi a \<le> 2 powi b \<Longrightarrow> a \<le> b"
proof (rule ccontr)
  assume l: "(2::real) powi a \<le> 2 powi b" and "\<not> a \<le> b"
  then have "b + 1 \<le> a" by simp
  then have "(2::real) powi (b + 1) \<le> 2 powi a"
    by (intro power_int_increasing) simp_all
  moreover have "(0::real) < 2 powi b" by simp
  ultimately show False using l by (simp add: pow2_Suc)
qed

lemma quantum_pow: "\<exists>e. quantum x = 2 powi e"
  unfolding quantum_def by metis

lemma quantum_mono:
  assumes "\<bar>d\<bar> \<le> b" and "2 powi (-1022) \<le> b" and "b < 2 powi 1024"
  shows "quantum d \<le> quantum b"
proof -
  let ?e = "binade 1100 b"
  have lo: "2 powi ?e \<le> b" and hi: "b < 2 powi (?e + 1)"
    using assms(2,3) by (rule binade_normal)+
  have "(2::real) powi ?e < 2 powi 1024" using lo assms(3) by linarith
  then have e1: "?e \<le> 1023" using pow2_less_imp_less [of ?e 1024] by simp
  have "(2::real) powi (-1022) < 2 powi (?e + 1)" using hi assms(2) by linarith
  then have e2: "- 1022 \<le> ?e" using pow2_less_imp_less [of "-1022" "?e + 1"] by simp
  have "\<bar>d\<bar> < 2 powi (?e + 1)" using assms(1) hi by linarith
  then have "quantum d \<le> 2 powi (?e - 52)" using e2 e1 by (rule quantum_le)
  then show ?thesis using quantum_normal [OF assms(2)] by simp
qed

lemma quantum_multiple:
  assumes "quantum d \<le> quantum b"
  shows "\<exists>n::nat. quantum b = quantum d * 2 ^ n"
proof -
  obtain e1 where e1: "quantum d = 2 powi e1" using quantum_pow by blast
  obtain e2 where e2: "quantum b = 2 powi e2" using quantum_pow by blast
  have le: "e1 \<le> e2" using assms unfolding e1 e2 by (rule pow2_le_imp_le)
  have "(2::real) powi e2 = 2 powi (e1 + (e2 - e1))" by simp
  also have "\<dots> = 2 powi e1 * 2 powi (e2 - e1)"
    by (rule power_int_add) simp
  also have "(2::real) powi (e2 - e1) = 2 ^ nat (e2 - e1)"
    using le by (simp add: power_int_def)
  finally show ?thesis unfolding e1 e2 by blast
qed

lemma fl_exact: "x = quantum x * real_of_int k \<Longrightarrow> fl x = x"
proof -
  assume x: "x = quantum x * real_of_int k"
  have "x / quantum x = real_of_int k"
    using quantum_pos [of x] x by (metis less_irrefl nonzero_mult_div_cancel_left)
  then have "roundHalfEven (x / quantum x) = k" by (simp add: roundHalfEven_def)
  then show ?thesis using x by (simp add: fl_def)
qed

lemma double_multiple: "fl x = x \<Longrightarrow> \<exists>k. x = quantum x * real_of_int k"
  unfolding fl_def by metis

text \<open>
  The difference of two doubles of which the larger is at most twice the smaller is a
  double: the subtraction is exact.
\<close>

lemma exact_difference:
  assumes "fl x = x" and "fl b = b" and "2 powi (-1022) \<le> b" and "b \<le> x"
    and "x \<le> 2 * b" and "x < 2 powi 1024"
  shows "fl (x - b) = x - b"
proof -
  obtain kx where kx: "x = quantum x * real_of_int kx" using assms(1) double_multiple by blast
  obtain kb where kb: "b = quantum b * real_of_int kb" using assms(2) double_multiple by blast
  have b0: "0 < b" using assms(3) by (smt (verit) zero_less_power_int)
  have "quantum b \<le> quantum x"
    using assms(3,4,6) b0 by (intro quantum_mono) simp_all
  then obtain n :: nat where n: "quantum x = quantum b * 2 ^ n" using quantum_multiple by blast
  have "quantum (x - b) \<le> quantum b"
    using assms b0 by (intro quantum_mono) simp_all
  then obtain m :: nat where m: "quantum b = quantum (x - b) * 2 ^ m"
    using quantum_multiple by blast
  have "x - b = quantum b * (2 ^ n * real_of_int kx - real_of_int kb)"
    using kx kb n by (simp add: algebra_simps)
  also have "\<dots> = quantum (x - b) * real_of_int (2 ^ m * (2 ^ n * kx - kb))"
    using m by simp
  finally show ?thesis by (rule fl_exact)
qed

lemma pow2_multiple:
  assumes "(2::real) powi i \<le> 2 powi j"
  shows "\<exists>n::nat. (2::real) powi j = 2 powi i * 2 ^ n"
proof -
  have le: "i \<le> j" using assms by (rule pow2_le_imp_le)
  have "(2::real) powi j = 2 powi (i + (j - i))" by simp
  also have "\<dots> = 2 powi i * 2 powi (j - i)"
    by (rule power_int_add) simp
  also have "(2::real) powi (j - i) = 2 ^ nat (j - i)"
    using le by (simp add: power_int_def)
  finally show ?thesis by blast
qed

lemma fl_exact_pow:
  assumes "y = 2 powi j * real_of_int k" and "quantum y \<le> 2 powi j"
  shows "fl y = y"
proof -
  obtain e where e: "quantum y = 2 powi e" using quantum_pow by blast
  obtain n :: nat where n: "(2::real) powi j = 2 powi e * 2 ^ n"
    using assms(2) unfolding e using pow2_multiple by blast
  have "2 powi j * real_of_int k = quantum y * real_of_int (2 ^ n * k)"
    by (simp add: n e)
  with assms(1) have "y = quantum y * real_of_int (2 ^ n * k)" by (rule trans)
  then show ?thesis by (rule fl_exact)
qed

lemma roundHalfEven_less:
  assumes "t < real_of_int N - 1 / 2"
  shows "roundHalfEven t < N"
proof -
  have "real_of_int (roundHalfEven t) < real_of_int N"
    using roundHalfEven_near [of t] assms by linarith
  then show ?thesis by simp
qed

lemma binade_range:
  assumes "2 powi (-1022) \<le> x" and "x < 2 powi 1024"
  shows "- 1022 \<le> binade 1100 x" and "binade 1100 x \<le> 1023"
proof -
  let ?e = "binade 1100 x"
  have lo: "2 powi ?e \<le> x" and hi: "x < 2 powi (?e + 1)"
    using assms by (rule binade_normal)+
  have "(2::real) powi ?e < 2 powi 1024" using lo assms(2) by linarith
  then show "?e \<le> 1023" using pow2_less_imp_less [of ?e 1024] by simp
  have "(2::real) powi (-1022) < 2 powi (?e + 1)" using hi assms(1) by linarith
  then show "- 1022 \<le> ?e" using pow2_less_imp_less [of "-1022" "?e + 1"] by simp
qed

lemma fl_fl_nonneg:
  assumes "0 \<le> x" and "x < 2 powi 1024 - 2 powi 970"
  shows "fl (fl x) = fl x"
proof (cases "x < 2 powi (-1022)")
  case True
  let ?k = "roundHalfEven (x / 2 powi (-1074))"
  have q: "quantum x = 2 powi (-1074)" using True assms(1) by (simp add: quantum_def)
  have y: "fl x = 2 powi (-1074) * real_of_int ?k" by (simp add: fl_def q)
  have "x / 2 powi (-1074) \<le> real_of_int (2 ^ 52)"
  proof -
    have "x / 2 powi (-1074) \<le> 2 powi (-1022) / 2 powi (-1074)"
      using True by (intro divide_right_mono) simp_all
    also have "\<dots> = (2::real) powi 52" by (simp add: power_int_minus field_simps)
    finally show ?thesis by simp
  qed
  then have "?k \<le> 2 ^ 52" by (rule roundHalfEven_le_int)
  then have "real_of_int ?k \<le> 2 ^ 52" by (metis of_int_le_iff of_int_numeral of_int_power)
  then have "fl x \<le> 2 powi (-1074) * 2 ^ 52"
    unfolding y by (intro mult_left_mono) simp_all
  also have "\<dots> = (2::real) powi (-1022)" by (simp add: power_int_minus field_simps)
  finally have "fl x \<le> 2 powi (-1022)" .
  moreover have "0 \<le> fl x" using assms(1) by (rule fl_nonneg)
  moreover have "(2::real) powi (-1022) < 2 powi (- 1022 + 1)" by simp
  ultimately have "\<bar>fl x\<bar> < 2 powi (- 1022 + 1)" by linarith
  then have "quantum (fl x) \<le> 2 powi (- 1022 - 52)" by (rule quantum_le) simp_all
  then have "quantum (fl x) \<le> 2 powi (-1074)" by simp
  with y show ?thesis by (rule fl_exact_pow)
next
  case False
  then have lo: "2 powi (-1022) \<le> x" by simp
  have "(0::real) < 2 powi 970" by simp
  then have hi: "x < 2 powi 1024" using assms(2) by linarith
  let ?e = "binade 1100 x"
  let ?k = "roundHalfEven (x / 2 powi (?e - 52))"
  have q: "quantum x = 2 powi (?e - 52)" using lo by (rule quantum_normal)
  have y: "fl x = 2 powi (?e - 52) * real_of_int ?k" by (simp add: fl_def q)
  have e: "- 1022 \<le> ?e" "?e \<le> 1023" using lo hi by (rule binade_range)+
  have y0: "0 \<le> fl x" using assms(1) by (rule fl_nonneg)
  have up: "fl x \<le> 2 powi (?e + 1)" using lo hi by (rule fl_binade(2))
  show ?thesis
  proof (cases "fl x < 2 powi (?e + 1)")
    case True
    then have "\<bar>fl x\<bar> < 2 powi (?e + 1)" using y0 by simp
    then have "quantum (fl x) \<le> 2 powi (?e - 52)" using e by (rule quantum_le)
    with y show ?thesis by (rule fl_exact_pow)
  next
    case False
    with up have top: "fl x = 2 powi (?e + 1)" by simp
    have e2: "?e \<le> 1022"
    proof (rule ccontr)
      assume "\<not> ?e \<le> 1022"
      with e(2) have e3: "?e = 1023" by simp
      have "x / 2 powi 971 < (2 powi 1024 - 2 powi 970) / 2 powi 971"
        using assms(2) by (intro divide_strict_right_mono) simp_all
      also have "\<dots> = real_of_int (2 ^ 53) - 1 / 2" by (simp add: field_simps)
      finally have "roundHalfEven (x / 2 powi 971) < 2 ^ 53" by (rule roundHalfEven_less)
      then have "real_of_int (roundHalfEven (x / 2 powi 971)) < 2 ^ 53"
        by (metis of_int_less_iff of_int_numeral of_int_power)
      then have "2 powi 971 * real_of_int (roundHalfEven (x / 2 powi 971)) < 2 powi 971 * 2 ^ 53"
        by (intro mult_strict_left_mono) simp_all
      then have "fl x < 2 powi 971 * 2 ^ 53" using y e3 by simp
      also have "\<dots> = (2::real) powi 1024" by simp
      finally show False using top e3 by simp
    qed
    have t: "fl x = 2 powi (?e + 1 - 52) * real_of_int (2 ^ 52)"
      unfolding top by (simp add: power_int_diff power_int_add)
    have "(2::real) powi (?e + 1) < 2 powi (?e + 1 + 1)" by (simp add: power_int_add)
    then have "\<bar>fl x\<bar> < 2 powi (?e + 1 + 1)" using top by simp
    then have "quantum (fl x) \<le> 2 powi (?e + 1 - 52)" using e e2 by (intro quantum_le) simp_all
    with t show ?thesis by (rule fl_exact_pow)
  qed
qed

lemma fl_fl:
  assumes "\<bar>x\<bar> < 2 powi 1024 - 2 powi 970"
  shows "fl (fl x) = fl x"
proof (cases "0 \<le> x")
  case True
  then show ?thesis using assms by (intro fl_fl_nonneg) simp_all
next
  case False
  then have "fl (fl (- x)) = fl (- x)" using assms by (intro fl_fl_nonneg) simp_all
  then show ?thesis by (simp add: fl_minus)
qed

lemma toDouble_double: "toDouble v = Finite b \<Longrightarrow> fl b = b"
  by (simp add: toDouble_Finite_iff fl_fl)

lemma parseFloat_double: "parseFloat s = Finite b \<Longrightarrow> fl b = b"
proof -
  assume a: "parseFloat s = Finite b"
  obtain x r where l: "scanLiteral (trimStart s) = (x, r)" by (cases "scanLiteral (trimStart s)")
  show ?thesis
  proof (cases x)
    case (Finite v)
    then have "toDouble v = Finite b" using a l by (simp add: parseFloat_def scanFloat_def)
    then show ?thesis by (rule toDouble_double)
  qed (use a l in \<open>simp_all add: parseFloat_def scanFloat_def\<close>)
qed

subsection \<open>Duplicates\<close>

lemma nearAmount_Finite:
  "nearAmount x (Finite b) \<longleftrightarrow> \<bar>x - b\<bar> < 2 powi 1024 - 2 powi 970 \<and> fl \<bar>x - b\<bar> < fl 0.01"
proof (cases "\<bar>x - b\<bar> < 2 powi 1024 - 2 powi 970")
  case True
  then have "toDouble (x - b) = Finite (fl (x - b))" by (rule toDouble_Finite)
  then have "nearAmount x (Finite b) \<longleftrightarrow> \<bar>fl (x - b)\<bar> < fl 0.01"
    by (simp add: nearAmount_def)
  then show ?thesis using True by (simp only: fl_abs simp_thms)
next
  case False
  then have "toDouble (x - b) = PosInfinity \<or> toDouble (x - b) = NegInfinity"
    unfolding toDouble_def by (simp only: abs_if split: if_splits) auto
  then have "\<not> nearAmount x (Finite b)" by (auto simp: nearAmount_def)
  then show ?thesis using False by (simp only: simp_thms)
qed

lemma nearAmount_imp_less:
  assumes "nearAmount x (Finite b)"
  shows "\<bar>x - b\<bar> < 0.01"
proof (rule ccontr)
  assume "\<not> \<bar>x - b\<bar> < 0.01"
  then have far: "0.01 \<le> \<bar>x - b\<bar>" by simp
  have r: "\<bar>x - b\<bar> < 2 powi 1024 - 2 powi 970" and n: "fl \<bar>x - b\<bar> < fl 0.01"
    using assms by (simp_all add: nearAmount_Finite)
  have "(0::real) < 2 powi 970" by simp
  then have "\<bar>x - b\<bar> < 2 powi 1024" using r by linarith
  moreover have "(2::real) powi (-1022) \<le> 0.01" by simp
  ultimately have "fl 0.01 \<le> fl \<bar>x - b\<bar>" using far by (intro fl_mono)
  with n show False by simp
qed

lemma less_imp_nearAmount:
  assumes "\<bar>x - b\<bar> \<le> 0.01 - 2 powi (-60)"
  shows "nearAmount x (Finite b)"
proof -
  let ?z = "\<bar>x - b\<bar>"
  have small: "?z \<le> 0.01" using assms by (simp add: power_int_minus)
  have "\<bar>?z\<bar> < 2 powi (- 7 + 1)" using small by (simp add: power_int_minus)
  then have "quantum ?z \<le> 2 powi (- 7 - 52)" by (rule quantum_le) simp_all
  then have q: "quantum ?z / 2 \<le> 2 powi (-60)" by (simp add: power_int_minus)
  have "fl ?z \<le> ?z + quantum ?z / 2" using fl_error [of ?z] by linarith
  also have "\<dots> \<le> 0.01" using assms q by linarith
  also have "\<dots> < fl 0.01" by (simp add: fl_0_01)
  finally have "fl ?z < fl 0.01" .
  moreover have "?z < 2 powi 1024 - 2 powi 970" using small by simp
  ultimately show ?thesis by (simp add: nearAmount_Finite)
qed

lemma MIN_AMOUNT_bounds: "0.01 < MIN_AMOUNT" "2 powi (-1022) \<le> MIN_AMOUNT"
  by (simp_all add: MIN_AMOUNT_def fl_0_01)

lemma MIN_AMOUNT_pos: "0 < MIN_AMOUNT"
  by (simp add: MIN_AMOUNT_def fl_0_01)

lemma MAX_AMOUNT_bounds: "MAX_AMOUNT < 2 powi 30"
  by (simp add: MAX_AMOUNT_def fl_max)

lemma nearAmount_of_valid:
  assumes x: "fl x = x" "MIN_AMOUNT \<le> x" "x \<le> MAX_AMOUNT"
    and b: "fl b = b" "MIN_AMOUNT \<le> b" "b \<le> MAX_AMOUNT"
  shows "nearAmount x (Finite b) \<longleftrightarrow> \<bar>x - b\<bar> < 0.01"
proof
  assume "nearAmount x (Finite b)"
  then show "\<bar>x - b\<bar> < 0.01" by (rule nearAmount_imp_less)
next
  assume near: "\<bar>x - b\<bar> < 0.01"
  have big: "(2::real) powi 30 < 2 powi 1024" by simp
  have exact: "fl \<bar>x - b\<bar> = \<bar>x - b\<bar>"
  proof (cases "b \<le> x")
    case True
    have "fl (x - b) = x - b"
    proof (rule exact_difference)
      show "x \<le> 2 * b" using near True b(2) MIN_AMOUNT_bounds(1) by linarith
      show "x < 2 powi 1024" using x(3) MAX_AMOUNT_bounds big by linarith
      show "2 powi (-1022) \<le> b" using b(2) MIN_AMOUNT_bounds(2) by linarith
    qed (use x b True in simp_all)
    then show ?thesis using True by simp
  next
    case False
    have "fl (b - x) = b - x"
    proof (rule exact_difference)
      show "b \<le> 2 * x" using near False x(2) MIN_AMOUNT_bounds(1) by linarith
      show "b < 2 powi 1024" using b(3) MAX_AMOUNT_bounds big by linarith
      show "2 powi (-1022) \<le> x" using x(2) MIN_AMOUNT_bounds(2) by linarith
    qed (use x b False in simp_all)
    then show ?thesis using False by simp
  qed
  have "\<bar>x - b\<bar> < fl 0.01" using near MIN_AMOUNT_bounds(1) by (simp add: MIN_AMOUNT_def)
  moreover have "\<bar>x - b\<bar> < 2 powi 1024 - 2 powi 970" using near by simp
  ultimately show "nearAmount x (Finite b)" by (simp add: nearAmount_Finite exact)
qed

lemma nearAmount_not_Finite: "nearAmount x v \<Longrightarrow> \<exists>b. v = Finite b"
  by (cases v) (simp_all add: nearAmount_def)

lemma potentialDuplicate_find:
  "potentialDuplicate c ex = find (isNearMatch c) ex"
  by (simp add: potentialDuplicate_def isNearMatch_def [abs_def])

lemma validateTransaction_duplicate_step:
  "validateTransaction D eot c ex v =
     (fst (validateTransaction D eot c [] v),
      checkForDuplicates c ex (snd (validateTransaction D eot c [] v)))"
  by (simp add: validateTransaction_def Let_def checkForDuplicates_def potentialDuplicate_def
      hasErrors_def addWarning_def split: option.splits)

lemma validateTransaction_warnings_keys:
  "fst ` set (warnings (snd (validateTransaction D eot c [] v))) \<subseteq> {''date''}"
  by (auto simp: validateTransaction_def Let_def checkForDuplicates_def potentialDuplicate_def
      addWarning_def addError_def clear_def addEntry_def split: sum.splits if_splits)

text \<open>
  C8, as the code has it. The duplicate check finds the first existing transaction that
  is a near match of the candidate, or none when there is no near match. A near match
  has the same date string, the same type, and an amount near the candidate's: the
  difference of the two doubles, rounded to a double, is below the double of 0.01.
  Amounts that are near differ by less than 0.01, and amounts that differ by at most
  \<open>0.01 - 2 powi (-60)\<close> are near; between two valid amounts (doubles within the
  bounds of an amount) near means exactly: they differ by less than 0.01. What the
  check finds only adds the \<open>duplicate\<close> warning: the verdict and the errors of
  \<open>validateTransaction\<close> are those it gives with an empty ledger.
\<close>

theorem duplicate_is_first_match_and_only_warns:
  "(case potentialDuplicate c ex of
      None \<Rightarrow> \<forall>e\<in>set ex. \<not> isNearMatch c e
    | Some e \<Rightarrow> \<exists>i<length ex. ex ! i = e \<and> isNearMatch c e \<and> (\<forall>j<i. \<not> isNearMatch c (ex ! j)))
   \<and> (\<forall>e. isNearMatch c e \<longrightarrow>
         date e = date c \<and> type e = type c
         \<and> (\<exists>b. parseFloat (amount c) = Finite b \<and> \<bar>amount e - b\<bar> < 0.01))
   \<and> (\<forall>e b. date e = date c \<and> type e = type c \<and> parseFloat (amount c) = Finite b
         \<and> \<bar>amount e - b\<bar> \<le> 0.01 - 2 powi (-60) \<longrightarrow> isNearMatch c e)
   \<and> (\<forall>e b. parseFloat (amount c) = Finite b \<and> MIN_AMOUNT \<le> b \<and> b \<le> MAX_AMOUNT
         \<and> fl (amount e) = amount e \<and> MIN_AMOUNT \<le> amount e \<and> amount e \<le> MAX_AMOUNT \<longrightarrow>
         isNearMatch c e = (date e = date c \<and> type e = type c \<and> \<bar>amount e - b\<bar> < 0.01))
   \<and> fst (validateTransaction D endOfToday c ex v) = fst (validateTransaction D endOfToday c [] v)
   \<and> errors (snd (validateTransaction D endOfToday c ex v))
       = errors (snd (validateTransaction D endOfToday c [] v))
   \<and> warnings (snd (validateTransaction D endOfToday c ex v))
       = warnings (snd (validateTransaction D endOfToday c [] v))
         @ (case potentialDuplicate c ex of
              None \<Rightarrow> []
            | Some e \<Rightarrow> [(''duplicate'', [(DUPLICATE_WARNING, ''DUPLICATE'')])])"
proof -
  have first: "case potentialDuplicate c ex of
      None \<Rightarrow> \<forall>e\<in>set ex. \<not> isNearMatch c e
    | Some e \<Rightarrow> \<exists>i<length ex. ex ! i = e \<and> isNearMatch c e \<and> (\<forall>j<i. \<not> isNearMatch c (ex ! j))"
  proof (cases "find (isNearMatch c) ex")
    case None
    then have "\<forall>e\<in>set ex. \<not> isNearMatch c e" by (simp add: find_None_iff)
    then show ?thesis unfolding potentialDuplicate_find None by simp
  next
    case (Some e)
    then have "\<exists>i<length ex. ex ! i = e \<and> isNearMatch c e \<and> (\<forall>j<i. \<not> isNearMatch c (ex ! j))"
      by (auto simp: find_Some_iff)
    then show ?thesis unfolding potentialDuplicate_find Some by simp
  qed
  have near: "\<forall>e. isNearMatch c e \<longrightarrow>
         date e = date c \<and> type e = type c
         \<and> (\<exists>b. parseFloat (amount c) = Finite b \<and> \<bar>amount e - b\<bar> < 0.01)"
  proof (intro allI impI)
    fix e
    assume m: "isNearMatch c e"
    then have n: "nearAmount (amount e) (parseFloat (amount c))" by (simp add: isNearMatch_def)
    then obtain b where b: "parseFloat (amount c) = Finite b"
      using nearAmount_not_Finite by blast
    have "\<bar>amount e - b\<bar> < 0.01" using n unfolding b by (rule nearAmount_imp_less)
    with m b show "date e = date c \<and> type e = type c
         \<and> (\<exists>b. parseFloat (amount c) = Finite b \<and> \<bar>amount e - b\<bar> < 0.01)"
      by (simp add: isNearMatch_def)
  qed
  have close: "\<forall>e b. date e = date c \<and> type e = type c \<and> parseFloat (amount c) = Finite b
         \<and> \<bar>amount e - b\<bar> \<le> 0.01 - 2 powi (-60) \<longrightarrow> isNearMatch c e"
    by (simp add: isNearMatch_def less_imp_nearAmount)
  have valid: "\<forall>e b. parseFloat (amount c) = Finite b \<and> MIN_AMOUNT \<le> b \<and> b \<le> MAX_AMOUNT
         \<and> fl (amount e) = amount e \<and> MIN_AMOUNT \<le> amount e \<and> amount e \<le> MAX_AMOUNT \<longrightarrow>
         isNearMatch c e = (date e = date c \<and> type e = type c \<and> \<bar>amount e - b\<bar> < 0.01)"
    using parseFloat_double [of "amount c"] by (simp add: isNearMatch_def nearAmount_of_valid)
  have dup: "''duplicate'' \<notin> fst ` set (warnings (snd (validateTransaction D endOfToday c [] v)))"
    using validateTransaction_warnings_keys [of D endOfToday c v] by auto
  have w: "warnings (checkForDuplicates c ex (snd (validateTransaction D endOfToday c [] v)))
      = warnings (snd (validateTransaction D endOfToday c [] v))
         @ (case potentialDuplicate c ex of
              None \<Rightarrow> []
            | Some e \<Rightarrow> [(''duplicate'', [(DUPLICATE_WARNING, ''DUPLICATE'')])])"
    using dup by (simp add: checkForDuplicates_def addWarning_def addEntry_new split: option.splits)
  have only: "fst (validateTransaction D endOfToday c ex v) = fst (validateTransaction D endOfToday c [] v)
   \<and> errors (snd (validateTransaction D endOfToday c ex v))
       = errors (snd (validateTransaction D endOfToday c [] v))
   \<and> warnings (snd (validateTransaction D endOfToday c ex v))
       = warnings (snd (validateTransaction D endOfToday c [] v))
         @ (case potentialDuplicate c ex of
              None \<Rightarrow> []
            | Some e \<Rightarrow> [(''duplicate'', [(DUPLICATE_WARNING, ''DUPLICATE'')])])"
    using w
    by (simp add: validateTransaction_duplicate_step [of D endOfToday c ex v]
        errors_checkForDuplicates)
  from first near close valid only show ?thesis by (intro conjI) blast+
qed

lemmas parse_eval = isEmpty_def trim_def isWhiteSpace_def parseFloat_def
  scanFloat_def scanLiteral_def trimStart_def scanSign_def isDigit_def scanExponent_def decimal_def digitVal_def

lemma parseFloat_100_004: "parseFloat ''100.004'' = Finite (fl 100.004)"
  by (simp add: parse_eval toDouble_Finite)

lemma fl_100_004: "fl (25001 / 250) = 7037155892743111 / 2 ^ 46"
  by (simp add: fl_eval)

lemma parseAmount_100_004: "parseAmount ''100.004'' = Inr 100"
  by (simp add: parseAmount_def isEmpty_def trim_def isWhiteSpace_def parseFloat_100_004
      fl_100_004 MIN_AMOUNT_def MAX_AMOUNT_def fl_0_01 fl_max Math_round_def)
     (simp add: fl_eval)

theorem duplicate_is_first_match_and_only_warns_witness:
  "potentialDuplicate
     \<lparr>date = ''2023-01-01'', type = ''Payment'', amount = ''100.004'', notes' = ''''\<rparr>
     [\<lparr>date = ''2023-02-01'', type = ''Payment'', amount = 100, notes' = '''',
         id' = ''txn_1'', timestamp = ''''\<rparr>,
      \<lparr>date = ''2023-01-01'', type = ''Payment'', amount = 100, notes' = '''',
         id' = ''txn_2'', timestamp = ''''\<rparr>,
      \<lparr>date = ''2023-01-01'', type = ''Payment'', amount = 100, notes' = '''',
         id' = ''txn_3'', timestamp = ''''\<rparr>]
   = Some \<lparr>date = ''2023-01-01'', type = ''Payment'', amount = 100, notes' = '''',
            id' = ''txn_2'', timestamp = ''''\<rparr>
   \<and> validateTransaction isoDate 1700000000000
     \<lparr>date = ''2023-01-01'', type = ''Payment'', amount = ''100.004'', notes' = ''''\<rparr>
     [\<lparr>date = ''2023-02-01'', type = ''Payment'', amount = 100, notes' = '''',
         id' = ''txn_1'', timestamp = ''''\<rparr>,
      \<lparr>date = ''2023-01-01'', type = ''Payment'', amount = 100, notes' = '''',
         id' = ''txn_2'', timestamp = ''''\<rparr>,
      \<lparr>date = ''2023-01-01'', type = ''Payment'', amount = 100, notes' = '''',
         id' = ''txn_3'', timestamp = ''''\<rparr>]
     \<lparr>errors = [], warnings = []\<rparr>
   = (True, \<lparr>errors = [],
             warnings = [(''duplicate'', [(DUPLICATE_WARNING, ''DUPLICATE'')])]\<rparr>)"
proof -
  let ?c = "\<lparr>date = ''2023-01-01'', type = ''Payment'', amount = ''100.004'', notes' = ''''\<rparr>"
  let ?e1 = "\<lparr>date = ''2023-02-01'', type = ''Payment'', amount = 100, notes' = '''',
         id' = ''txn_1'', timestamp = ''''\<rparr>"
  let ?e2 = "\<lparr>date = ''2023-01-01'', type = ''Payment'', amount = 100, notes' = '''',
         id' = ''txn_2'', timestamp = ''''\<rparr>"
  let ?e3 = "\<lparr>date = ''2023-01-01'', type = ''Payment'', amount = 100, notes' = '''',
         id' = ''txn_3'', timestamp = ''''\<rparr>"
  let ?ex = "[?e1, ?e2, ?e3]"
  let ?v = "\<lparr>errors = [], warnings = []\<rparr>"
  note T = duplicate_is_first_match_and_only_warns
        [where c = ?c and ex = ?ex and D = isoDate and endOfToday = 1700000000000 and v = ?v]
  note valid = T [THEN conjunct2, THEN conjunct2, THEN conjunct2, THEN conjunct1, rule_format]
  note only = T [THEN conjunct2, THEN conjunct2, THEN conjunct2, THEN conjunct2]
  have b: "MIN_AMOUNT \<le> fl 100.004" "fl 100.004 \<le> MAX_AMOUNT"
    and x: "fl 100 = 100" "MIN_AMOUNT \<le> 100" "100 \<le> MAX_AMOUNT"
    by (simp_all add: fl_100_004 MIN_AMOUNT_def MAX_AMOUNT_def fl_0_01 fl_max)
       (simp_all add: fl_eval)
  have d: "\<bar>100 - fl 100.004\<bar> < 0.01" by (simp add: fl_100_004)
  have n1: "\<not> isNearMatch ?c ?e1" by (simp add: isNearMatch_def)
  have n2: "isNearMatch ?c ?e2"
    using valid [of "fl 100.004" ?e2] parseFloat_100_004 b x d by simp
  have p: "potentialDuplicate ?c ?ex = Some ?e2"
    using n1 n2 by (simp add: potentialDuplicate_find)
  have alone: "validateTransaction isoDate 1700000000000 ?c [] ?v = (True, ?v)"
    by (simp add: validateTransaction_def Let_def parseDate_def isoDate_2023_01_01
        isFutureDate_def parseAmount_100_004 validateTransactionType_def validateNotes_def
        isEmpty_def trim_def checkForDuplicates_def potentialDuplicate_def hasErrors_def
        clear_def)
  have f: "fst (validateTransaction isoDate 1700000000000 ?c ?ex ?v) = True"
    using only [THEN conjunct1] by (simp only: alone fst_conv)
  have e: "errors (snd (validateTransaction isoDate 1700000000000 ?c ?ex ?v)) = []"
    using only [THEN conjunct2, THEN conjunct1]
    by (simp only: alone snd_conv validator.simps)
  have w: "warnings (snd (validateTransaction isoDate 1700000000000 ?c ?ex ?v))
      = [(''duplicate'', [(DUPLICATE_WARNING, ''DUPLICATE'')])]"
    using only [THEN conjunct2, THEN conjunct2]
    by (simp only: alone snd_conv validator.simps p option.case append_Nil)
  have "validateTransaction isoDate 1700000000000 ?c ?ex ?v
      = (True, \<lparr>errors = [], warnings = [(''duplicate'', [(DUPLICATE_WARNING, ''DUPLICATE'')])]\<rparr>)"
    using f e w by (simp add: prod_eq_iff validator.equality)
  with p show ?thesis by simp
qed

lemma fl_0_11: "fl (11 / 100) = 7926335344172073 / 2 ^ 56"
  by (simp add: fl_eval)

lemma fl_0_12: "fl (3 / 25) = 1080863910568919 / 2 ^ 53"
  by (simp add: fl_eval)

lemma parseFloat_0_11: "parseFloat ''0.11'' = Finite (fl 0.11)"
  by (simp add: parse_eval toDouble_Finite)

lemma parseFloat_tiny: "parseFloat ''4.336808689942018e-19'' = Finite (2 powi (-61))"
  by (simp add: parse_eval toDouble_Finite) (simp add: fl_eval)

text \<open>
  The amounts are compared as doubles, and the amounts of the claim are decimal. An
  existing amount of 0.12 and a candidate of \<open>0.11\<close>, a cent apart, are found near:
  the difference of their doubles is below 0.01. An existing amount of 0.01 and a
  candidate of \<open>4.336808689942018e-19\<close>, less than 0.01 apart, are not: the difference
  rounds to the double of 0.01.
\<close>

theorem duplicate_amounts_compared_as_doubles:
  "potentialDuplicate
     \<lparr>date = ''2023-01-01'', type = ''Payment'', amount = ''0.11'', notes' = ''''\<rparr>
     [\<lparr>date = ''2023-01-01'', type = ''Payment'', amount = fl 0.12, notes' = '''',
         id' = ''txn_1'', timestamp = ''''\<rparr>]
   = Some \<lparr>date = ''2023-01-01'', type = ''Payment'', amount = fl 0.12, notes' = '''',
            id' = ''txn_1'', timestamp = ''''\<rparr>
   \<and> \<not> \<bar>(0.12::real) - 0.11\<bar> < 0.01
   \<and> potentialDuplicate
     \<lparr>date = ''2023-01-01'', type = ''Payment'', amount = ''4.336808689942018e-19'',
        notes' = ''''\<rparr>
     [\<lparr>date = ''2023-01-01'', type = ''Payment'', amount = fl 0.01, notes' = '''',
         id' = ''txn_1'', timestamp = ''''\<rparr>]
   = None
   \<and> parseFloat ''4.336808689942018e-19'' = Finite (2 powi (-61))
   \<and> \<bar>fl 0.01 - 4336808689942018 / 10 ^ 34\<bar> < (0.01::real)
   \<and> \<bar>fl 0.01 - 2 powi (-61)\<bar> < (0.01::real)"
proof -
  have a: "nearAmount (fl 0.12) (Finite (fl 0.11))"
    by (simp add: nearAmount_Finite fl_0_11 fl_0_12 fl_0_01) (simp add: fl_eval)
  have b: "\<not> nearAmount (fl 0.01) (Finite (2 powi (-61)))"
    by (simp add: nearAmount_Finite fl_0_01 power_int_minus) (simp add: fl_eval)
  have c: "\<bar>fl 0.01 - 4336808689942018 / 10 ^ 34\<bar> < (0.01::real)"
    "\<bar>fl 0.01 - 2 powi (-61)\<bar> < (0.01::real)"
    by (simp_all add: fl_0_01 power_int_minus)
  show ?thesis
    using a b c
    by (simp add: potentialDuplicate_def parseFloat_0_11 parseFloat_tiny)
qed

subsection \<open>Amounts\<close>

lemma takeWhile_Nil_hd: "(takeWhile P xs = []) = (xs = [] \<or> \<not> P (hd xs))"
  by (cases xs) simp_all

lemma not_isDigit_dot: "\<not> isDigit CHR ''.''"
  by (simp add: isDigit_def)

lemma scanFloat_NaN_iff: "fst (scanFloat s) = NaN \<longleftrightarrow> \<not> startsWithNumber s"
proof -
  obtain neg u where su: "scanSign s = (neg, u)" by (cases "scanSign s")
  show ?thesis
  proof (cases "take 8 u = ''Infinity''")
    case True
    then show ?thesis by (simp add: scanFloat_def scanLiteral_def startsWithNumber_def su)
  next
    case inf: False
    show ?thesis
    proof (cases "u \<noteq> [] \<and> isDigit (hd u)")
      case True
      then have "takeWhile isDigit u \<noteq> []" by (simp add: takeWhile_Nil_hd)
      then show ?thesis using True inf
        by (simp add: scanFloat_def scanLiteral_def startsWithNumber_def su Let_def toDouble_not_NaN
            split: prod.splits)
    next
      case nd: False
      then have ip: "takeWhile isDigit u = []" and r1: "dropWhile isDigit u = u"
        by (cases u; simp)+
      show ?thesis
        using inf nd
        by (auto simp: scanFloat_def scanLiteral_def startsWithNumber_def su Let_def ip r1 takeWhile_Nil_hd
            toDouble_not_NaN split: prod.splits)
    qed
  qed
qed

lemma parseFloat_NaN_iff: "parseFloat s = NaN \<longleftrightarrow> \<not> startsWithNumber (trimStart s)"
  by (simp add: parseFloat_def scanFloat_NaN_iff)

lemma isEmpty_trimStart: "isEmpty s \<Longrightarrow> trimStart s = []"
proof -
  assume "isEmpty s"
  then have "dropWhile isWhiteSpace (rev (dropWhile isWhiteSpace s)) = []"
    by (simp add: isEmpty_def trim_def)
  then have all: "\<forall>x\<in>set (dropWhile isWhiteSpace s). isWhiteSpace x"
    by (simp add: dropWhile_eq_Nil_conv)
  show "trimStart s = []"
  proof (cases "dropWhile isWhiteSpace s")
    case Nil
    then show ?thesis by (simp add: trimStart_def)
  next
    case (Cons c cs)
    then have "\<not> isWhiteSpace c" using hd_dropWhile [of isWhiteSpace s] by simp
    moreover have "isWhiteSpace c" using all Cons by simp
    ultimately show ?thesis by simp
  qed
qed

lemma isEmpty_parseFloat: "isEmpty s \<Longrightarrow> parseFloat s = NaN"
  by (simp add: parseFloat_def isEmpty_trimStart scanFloat_def scanLiteral_def scanSign_def)

lemma MIN_AMOUNT_less_MAX_AMOUNT: "MIN_AMOUNT < MAX_AMOUNT"
  by (simp add: MIN_AMOUNT_def MAX_AMOUNT_def fl_0_01 fl_max)

lemma parseAmount_Finite:
  "parseFloat s = Finite a \<Longrightarrow>
   parseAmount s =
     (if a < MIN_AMOUNT then Inl (ValidationError AMOUNT_TOO_LOW ''amount'' ''TOO_LOW'')
      else if MAX_AMOUNT < a then Inl (ValidationError AMOUNT_TOO_HIGH ''amount'' ''TOO_HIGH'')
      else Inr (fl (real_of_int \<lfloor>fl (a * 100) + 1 / 2\<rfloor> / 100)))"
  using isEmpty_parseFloat [of s] by (auto simp: parseAmount_def Math_round_def)

lemma fl_12: "fl 12 = 12" "fl 1200 = 1200"
  by (simp_all add: fl_eval)

lemma parseFloat_12abc: "parseFloat ''12abc'' = Finite 12"
  by (simp add: parse_eval toDouble_Finite fl_12)

lemma parseAmount_12abc: "parseAmount ''12abc'' = Inr 12"
  by (simp add: parseAmount_Finite [OF parseFloat_12abc] MIN_AMOUNT_def MAX_AMOUNT_def
      fl_0_01 fl_max fl_12)

lemma parseFloat_examples:
  "parseFloat ''0.00'' = Finite 0"
  "parseFloat ''1000000000'' = Finite 1000000000"
  "parseFloat ''-5'' = Finite (- 5)"
  "parseFloat ''1e12'' = Finite 1000000000000"
  by (simp_all add: parse_eval toDouble_Finite) (simp_all add: fl_eval)

text \<open>
  The failures of \<open>parseAmount\<close>: \<open>REQUIRED\<close> on every empty or blank input;
  \<open>INVALID_NUMBER\<close> exactly on the inputs that are not blank and do not start (after
  leading white space) with a number; \<open>TOO_LOW\<close> when the number read is below
  \<open>MIN_AMOUNT\<close>, as for \<open>0.00\<close>; \<open>TOO_HIGH\<close> when it is above \<open>MAX_AMOUNT\<close>, as
  for \<open>1000000000\<close>.
\<close>

lemma parseAmount_failure_codes:
  "(isEmpty s \<longrightarrow> parseAmount s = Inl (ValidationError INVALID_AMOUNT ''amount'' ''REQUIRED''))
   \<and> (parseAmount s = Inl (ValidationError INVALID_AMOUNT ''amount'' ''INVALID_NUMBER'')
        \<longleftrightarrow> \<not> isEmpty s \<and> \<not> startsWithNumber (trimStart s))
   \<and> (\<not> isEmpty s \<and> (parseFloat s = NegInfinity \<or> (\<exists>a. parseFloat s = Finite a \<and> a < MIN_AMOUNT))
        \<longrightarrow> parseAmount s = Inl (ValidationError AMOUNT_TOO_LOW ''amount'' ''TOO_LOW''))
   \<and> (\<not> isEmpty s \<and> (parseFloat s = PosInfinity \<or> (\<exists>a. parseFloat s = Finite a \<and> MAX_AMOUNT < a))
        \<longrightarrow> parseAmount s = Inl (ValidationError AMOUNT_TOO_HIGH ''amount'' ''TOO_HIGH''))
   \<and> parseAmount ''0.00'' = Inl (ValidationError AMOUNT_TOO_LOW ''amount'' ''TOO_LOW'')
   \<and> parseAmount ''1000000000'' = Inl (ValidationError AMOUNT_TOO_HIGH ''amount'' ''TOO_HIGH'')
   \<and> parseAmount [] = Inl (ValidationError INVALID_AMOUNT ''amount'' ''REQUIRED'')"
proof (intro conjI impI)
  show "parseAmount s = Inl (ValidationError INVALID_AMOUNT ''amount'' ''INVALID_NUMBER'')
        \<longleftrightarrow> \<not> isEmpty s \<and> \<not> startsWithNumber (trimStart s)"
  proof (cases "isEmpty s")
    case True
    then show ?thesis by (simp add: parseAmount_def)
  next
    case False
    then show ?thesis
      by (cases "parseFloat s")
         (simp_all add: parseAmount_def parseFloat_NaN_iff [symmetric])
  qed
next
  assume "\<not> isEmpty s \<and> (parseFloat s = NegInfinity \<or> (\<exists>a. parseFloat s = Finite a \<and> a < MIN_AMOUNT))"
  then show "parseAmount s = Inl (ValidationError AMOUNT_TOO_LOW ''amount'' ''TOO_LOW'')"
    by (auto simp: parseAmount_def)
next
  assume "\<not> isEmpty s \<and> (parseFloat s = PosInfinity \<or> (\<exists>a. parseFloat s = Finite a \<and> MAX_AMOUNT < a))"
  then show "parseAmount s = Inl (ValidationError AMOUNT_TOO_HIGH ''amount'' ''TOO_HIGH'')"
    using MIN_AMOUNT_less_MAX_AMOUNT
    by (auto simp: parseAmount_def)
next
  show "parseAmount ''0.00'' = Inl (ValidationError AMOUNT_TOO_LOW ''amount'' ''TOO_LOW'')"
    by (simp add: parseAmount_Finite [OF parseFloat_examples(1)] MIN_AMOUNT_def fl_0_01)
next
  show "parseAmount ''1000000000'' = Inl (ValidationError AMOUNT_TOO_HIGH ''amount'' ''TOO_HIGH'')"
    by (simp add: parseAmount_Finite [OF parseFloat_examples(2)] MIN_AMOUNT_def MAX_AMOUNT_def
        fl_0_01 fl_max)
qed (simp_all add: parseAmount_def isEmpty_def trim_def)

lemma parseAmount_failure_codes_examples:
  "parseAmount ''   '' = Inl (ValidationError INVALID_AMOUNT ''amount'' ''REQUIRED'')
   \<and> parseAmount ''abc'' = Inl (ValidationError INVALID_AMOUNT ''amount'' ''INVALID_NUMBER'')
   \<and> parseAmount ''-5'' = Inl (ValidationError AMOUNT_TOO_LOW ''amount'' ''TOO_LOW'')
   \<and> parseAmount ''1e12'' = Inl (ValidationError AMOUNT_TOO_HIGH ''amount'' ''TOO_HIGH'')"
proof -
  note T = parseAmount_failure_codes
  have a: "parseAmount ''   '' = Inl (ValidationError INVALID_AMOUNT ''amount'' ''REQUIRED'')"
    using T [of "''   ''", THEN conjunct1] by (simp add: isEmpty_def trim_def isWhiteSpace_def)
  have b: "parseAmount ''abc'' = Inl (ValidationError INVALID_AMOUNT ''amount'' ''INVALID_NUMBER'')"
    using T [of "''abc''", THEN conjunct2, THEN conjunct1]
    by (simp add: isEmpty_def trim_def trimStart_def isWhiteSpace_def startsWithNumber_def
        scanSign_def isDigit_def)
  have c: "parseAmount ''-5'' = Inl (ValidationError AMOUNT_TOO_LOW ''amount'' ''TOO_LOW'')"
    using T [of "''-5''", THEN conjunct2, THEN conjunct2, THEN conjunct1]
    by (simp add: isEmpty_def trim_def isWhiteSpace_def parseFloat_examples MIN_AMOUNT_def
        fl_0_01)
  have d: "parseAmount ''1e12'' = Inl (ValidationError AMOUNT_TOO_HIGH ''amount'' ''TOO_HIGH'')"
    using T [of "''1e12''", THEN conjunct2, THEN conjunct2, THEN conjunct2, THEN conjunct1]
    by (simp add: isEmpty_def trim_def isWhiteSpace_def parseFloat_examples MAX_AMOUNT_def
        fl_max)
  from a b c d show ?thesis by simp
qed

text \<open>
  C6. The claim has \<open>parseAmount\<close> fail with \<open>INVALID_NUMBER\<close> on every input that
  is not numeric. The input \<open>12abc\<close> is not blank and is not numeric, and
  \<open>parseAmount\<close> accepts it: it returns 12, the number at its head.
\<close>

theorem parseAmount_accepts_numeric_prefix:
  "\<not> isEmpty ''12abc'' \<and> \<not> numericString ''12abc'' \<and> parseAmount ''12abc'' = Inr 12"
  by (simp add: parseAmount_12abc)
     (simp add: numericString_def parse_eval)

lemma cents_of_valid:
  assumes "MIN_AMOUNT \<le> a" and "a \<le> MAX_AMOUNT"
  defines "n \<equiv> \<lfloor>fl (a * 100) + 1 / 2\<rfloor>"
  shows "1 \<le> n" and "n \<le> 99999999999"
    and "\<bar>real_of_int n - a * 100\<bar> \<le> 1 / 2 + 2 powi (-17)"
proof -
  let ?z = "fl (a * 100)"
  have a0: "0 < a" using assms(1) MIN_AMOUNT_pos by linarith
  have up: "a * 100 < 2 powi 37"
  proof -
    have "a * 100 < 2 powi 30 * 100" using assms(2) MAX_AMOUNT_bounds by simp
    also have "\<dots> \<le> (2::real) powi 37" by simp
    finally show ?thesis .
  qed
  have big: "(2::real) powi 37 < 2 powi 1024" by simp
  have lo: "1 \<le> ?z"
  proof -
    have "fl (MIN_AMOUNT * 100) \<le> fl (a * 100)"
    proof (rule fl_mono)
      show "2 powi (-1022) \<le> MIN_AMOUNT * 100"
        using MIN_AMOUNT_bounds(2) MIN_AMOUNT_pos by linarith
      show "MIN_AMOUNT * 100 \<le> a * 100" using assms(1) by simp
      show "a * 100 < 2 powi 1024" using up big by linarith
    qed
    then show ?thesis by (simp add: MIN_AMOUNT_def fl_min_cents)
  qed
  have hi: "?z \<le> 99999999999"
  proof -
    have "fl (a * 100) \<le> fl (MAX_AMOUNT * 100)"
    proof (rule fl_mono)
      show "2 powi (-1022) \<le> a * 100"
        using assms(1) MIN_AMOUNT_bounds(2) a0 by linarith
      show "a * 100 \<le> MAX_AMOUNT * 100" using assms(2) by simp
      show "MAX_AMOUNT * 100 < 2 powi 1024" by (simp add: MAX_AMOUNT_def fl_max)
    qed
    then show ?thesis by (simp add: MAX_AMOUNT_def fl_max_cents)
  qed
  have nlo: "real_of_int n \<le> ?z + 1 / 2" unfolding n_def by (rule of_int_floor_le)
  have nhi: "?z + 1 / 2 < real_of_int n + 1" unfolding n_def by linarith
  have "real_of_int 1 \<le> ?z + 1 / 2" using lo by simp
  then show "1 \<le> n" unfolding n_def by (simp only: le_floor_iff)
  have "?z + 1 / 2 < real_of_int 99999999999 + 1" using hi by simp
  then show "n \<le> 99999999999" unfolding n_def by (simp only: floor_le_iff)
  have "\<bar>a * 100\<bar> < 2 powi (36 + 1)" using up a0 by simp
  then have "quantum (a * 100) \<le> 2 powi (36 - 52)" by (rule quantum_le) simp_all
  then have "quantum (a * 100) / 2 \<le> 2 powi (-17)" by (simp add: power_int_minus)
  then have "\<bar>?z - a * 100\<bar> \<le> 2 powi (-17)" using fl_error [of "a * 100"] by linarith
  then show "\<bar>real_of_int n - a * 100\<bar> \<le> 1 / 2 + 2 powi (-17)"
    using nlo nhi by linarith
qed

lemma fl_cents_valid:
  assumes "1 \<le> n" and "n \<le> 99999999999"
  shows "MIN_AMOUNT \<le> fl (real_of_int n / 100)" and "fl (real_of_int n / 100) \<le> MAX_AMOUNT"
proof -
  have n: "1 \<le> real_of_int n" "real_of_int n \<le> 99999999999" using assms by simp_all
  have "fl (1 / 100) \<le> fl (real_of_int n / 100)"
  proof (rule fl_mono)
    show "(2::real) powi (-1022) \<le> 1 / 100" by simp
    show "1 / 100 \<le> real_of_int n / 100" using n(1) by simp
    show "real_of_int n / 100 < 2 powi 1024" using n(2) by simp
  qed
  then show "MIN_AMOUNT \<le> fl (real_of_int n / 100)" by (simp add: MIN_AMOUNT_def)
  have "fl (real_of_int n / 100) \<le> fl (99999999999 / 100)"
  proof (rule fl_mono)
    show "2 powi (-1022) \<le> real_of_int n / 100" using n(1) by simp
    show "real_of_int n / 100 \<le> 99999999999 / 100" using n(2) by simp
    show "(99999999999 / 100 :: real) < 2 powi 1024" by simp
  qed
  then show "fl (real_of_int n / 100) \<le> MAX_AMOUNT" by (simp add: MAX_AMOUNT_def)
qed

lemma toDouble_of_valid:
  assumes "0.01 \<le> v" and "v \<le> 999999999.99"
  shows "toDouble v = Finite (fl v)" and "MIN_AMOUNT \<le> fl v" and "fl v \<le> MAX_AMOUNT"
proof -
  have "\<bar>v\<bar> < 2 powi 1024 - 2 powi 970" using assms by simp
  then show "toDouble v = Finite (fl v)" by (rule toDouble_Finite)
  have "fl 0.01 \<le> fl v"
  proof (rule fl_mono)
    show "(2::real) powi (-1022) \<le> 0.01" by simp
    show "0.01 \<le> v" by fact
    show "v < 2 powi 1024" using assms(2) by simp
  qed
  then show "MIN_AMOUNT \<le> fl v" by (simp add: MIN_AMOUNT_def)
  have "fl v \<le> fl 999999999.99"
  proof (rule fl_mono)
    show "2 powi (-1022) \<le> v" using assms(1) by simp
    show "v \<le> 999999999.99" by fact
    show "(999999999.99::real) < 2 powi 1024" by simp
  qed
  then show "fl v \<le> MAX_AMOUNT" by (simp add: MAX_AMOUNT_def)
qed

text \<open>
  An amount that \<open>parseAmount\<close> returns, the amount a transaction of the ledger is
  stored with, is a valid amount: a double within the bounds.
\<close>

lemma parseAmount_result_valid:
  assumes "parseAmount s = Inr r"
  shows "fl r = r" and "MIN_AMOUNT \<le> r" and "r \<le> MAX_AMOUNT"
proof -
  have ne: "\<not> isEmpty s" using assms by (auto simp: parseAmount_def)
  obtain a where a: "parseFloat s = Finite a"
    using assms ne by (cases "parseFloat s") (simp_all add: parseAmount_def)
  have range: "MIN_AMOUNT \<le> a" "a \<le> MAX_AMOUNT"
    using assms by (simp_all add: parseAmount_Finite [OF a] split: if_splits)
  define n where "n = \<lfloor>fl (a * 100) + 1 / 2\<rfloor>"
  have r: "r = fl (real_of_int n / 100)"
    using assms range by (simp add: parseAmount_Finite [OF a] n_def)
  have n: "1 \<le> n" "n \<le> 99999999999"
    unfolding n_def using range by (simp_all only: cents_of_valid)
  show "MIN_AMOUNT \<le> r" "r \<le> MAX_AMOUNT"
    unfolding r using n by (rule fl_cents_valid)+
  have "\<bar>real_of_int n / 100\<bar> < 2 powi 1024 - 2 powi 970" using n by simp
  then show "fl r = r" unfolding r by (rule fl_fl)
qed

text \<open>
  C2, as the code has it. When the number read from the amount string, a double, lies
  in [\<open>MIN_AMOUNT\<close>, \<open>MAX_AMOUNT\<close>], \<open>parseAmount\<close> succeeds and returns
  \<open>Math.round(amount * 100) / 100\<close> as computed on doubles: the double of \<open>n / 100\<close>
  for a whole number \<open>n\<close> of cents, from 1 to 99999999999, that is within half a cent
  and the rounding error of the product, at most \<open>2 powi (-17)\<close> of a cent, of the
  number read; the result is again in the range. The number read is in the range
  whenever the decimal value of the literal lies in [0.01, 999999999.99]. The bounds
  are checked on the number as read, before the rounding: a number below
  \<open>MIN_AMOUNT\<close> is refused as too low and one above \<open>MAX_AMOUNT\<close> as too high.
\<close>

theorem parseAmount_checks_bounds_then_rounds:
  "(parseFloat s = Finite a \<and> MIN_AMOUNT \<le> a \<and> a \<le> MAX_AMOUNT \<longrightarrow>
      (\<exists>n::int. parseAmount s = Inr (fl (real_of_int n / 100))
         \<and> n = \<lfloor>fl (a * 100) + 1 / 2\<rfloor>
         \<and> 1 \<le> n \<and> n \<le> 99999999999
         \<and> \<bar>real_of_int n - a * 100\<bar> \<le> 1 / 2 + 2 powi (-17)
         \<and> MIN_AMOUNT \<le> fl (real_of_int n / 100) \<and> fl (real_of_int n / 100) \<le> MAX_AMOUNT))
   \<and> (fst (scanLiteral (trimStart s)) = Finite v \<and> 0.01 \<le> v \<and> v \<le> 999999999.99 \<longrightarrow>
        parseFloat s = Finite (fl v) \<and> MIN_AMOUNT \<le> fl v \<and> fl v \<le> MAX_AMOUNT)
   \<and> (parseFloat s = Finite a \<and> a < MIN_AMOUNT \<longrightarrow>
        parseAmount s = Inl (ValidationError AMOUNT_TOO_LOW ''amount'' ''TOO_LOW''))
   \<and> (parseFloat s = Finite a \<and> MAX_AMOUNT < a \<longrightarrow>
        parseAmount s = Inl (ValidationError AMOUNT_TOO_HIGH ''amount'' ''TOO_HIGH''))"
proof (intro conjI impI)
  assume h: "parseFloat s = Finite a \<and> MIN_AMOUNT \<le> a \<and> a \<le> MAX_AMOUNT"
  define n where "n = \<lfloor>fl (a * 100) + 1 / 2\<rfloor>"
  have "parseAmount s = Inr (fl (real_of_int n / 100))"
    using h by (simp add: parseAmount_Finite n_def)
  moreover have c: "1 \<le> n" "n \<le> 99999999999"
    "\<bar>real_of_int n - a * 100\<bar> \<le> 1 / 2 + 2 powi (-17)"
    unfolding n_def using h by (simp_all only: cents_of_valid)
  moreover have "MIN_AMOUNT \<le> fl (real_of_int n / 100)" "fl (real_of_int n / 100) \<le> MAX_AMOUNT"
    using c(1,2) by (rule fl_cents_valid)+
  ultimately show "\<exists>n::int. parseAmount s = Inr (fl (real_of_int n / 100))
         \<and> n = \<lfloor>fl (a * 100) + 1 / 2\<rfloor>
         \<and> 1 \<le> n \<and> n \<le> 99999999999
         \<and> \<bar>real_of_int n - a * 100\<bar> \<le> 1 / 2 + 2 powi (-17)
         \<and> MIN_AMOUNT \<le> fl (real_of_int n / 100) \<and> fl (real_of_int n / 100) \<le> MAX_AMOUNT"
    using n_def by blast
next
  assume h: "fst (scanLiteral (trimStart s)) = Finite v \<and> 0.01 \<le> v \<and> v \<le> 999999999.99"
  then have "parseFloat s = toDouble v"
    by (cases "scanLiteral (trimStart s)") (simp add: parseFloat_def scanFloat_def)
  then show "parseFloat s = Finite (fl v)" using h by (simp only: toDouble_of_valid)
  show "MIN_AMOUNT \<le> fl v" "fl v \<le> MAX_AMOUNT"
    using h by (simp_all only: toDouble_of_valid)
next
  assume "parseFloat s = Finite a \<and> a < MIN_AMOUNT"
  then show "parseAmount s = Inl (ValidationError AMOUNT_TOO_LOW ''amount'' ''TOO_LOW'')"
    by (simp add: parseAmount_Finite)
next
  assume "parseFloat s = Finite a \<and> MAX_AMOUNT < a"
  then show "parseAmount s = Inl (ValidationError AMOUNT_TOO_HIGH ''amount'' ''TOO_HIGH'')"
    using MIN_AMOUNT_less_MAX_AMOUNT by (simp add: parseAmount_Finite)
qed

lemma fl_1_005: "fl (201 / 200) = 1131529406376837 / 2 ^ 50"
  by (simp add: fl_eval)

lemma fl_2_505: "fl (501 / 200) = 2820379266640773 / 2 ^ 50"
  by (simp add: fl_eval)

lemma fl_2_51: "fl (251 / 100) = 1413004383087493 / 2 ^ 49"
  by (simp add: fl_eval)

lemma fl_0_006: "fl (3 / 500) = 3458764513820541 / 2 ^ 59"
  by (simp add: fl_eval)

lemma parseFloat_1_005: "parseFloat ''1.005'' = Finite (fl 1.005)"
  by (simp add: parse_eval toDouble_Finite)

lemma parseFloat_2_505: "parseFloat ''2.505'' = Finite (fl 2.505)"
  by (simp add: parse_eval toDouble_Finite)

lemma parseFloat_0_006: "parseFloat ''0.006'' = Finite (fl 0.006)"
  by (simp add: parse_eval toDouble_Finite)

lemma cents_1_005: "\<lfloor>fl (fl (201 / 200) * 100) + 1 / 2\<rfloor> = 100"
  by (simp add: fl_1_005) (simp add: fl_eval)

lemma cents_2_505: "\<lfloor>fl (fl (501 / 200) * 100) + 1 / 2\<rfloor> = 251"
  by (simp add: fl_2_505) (simp add: fl_eval)

lemma cents_0_006: "\<lfloor>fl (fl (3 / 500) * 100) + 1 / 2\<rfloor> = 1"
  by (simp add: fl_0_006) (simp add: fl_eval)

lemma fl_1: "fl 1 = 1"
  by (simp add: fl_eval)

theorem parseAmount_checks_bounds_then_rounds_witness:
  "parseAmount ''2.505'' = Inr (fl 2.51) \<and> parseAmount ''1.005'' = Inr 1"
proof -
  note T1 = parseAmount_checks_bounds_then_rounds
              [where s = "''2.505''" and a = "fl 2.505" and v = "2.505"]
  note T2 = parseAmount_checks_bounds_then_rounds
              [where s = "''1.005''" and a = "fl 1.005" and v = "1.005"]
  have l1: "fst (scanLiteral (trimStart ''2.505'')) = Finite 2.505"
    and l2: "fst (scanLiteral (trimStart ''1.005'')) = Finite 1.005"
    by (simp_all add: parse_eval)
  have p1: "parseFloat ''2.505'' = Finite (fl 2.505) \<and> MIN_AMOUNT \<le> fl 2.505
      \<and> fl 2.505 \<le> MAX_AMOUNT"
    using T1 [THEN conjunct2, THEN conjunct1] l1 by simp
  have "\<exists>n::int. parseAmount ''2.505'' = Inr (fl (real_of_int n / 100))
      \<and> n = \<lfloor>fl (fl 2.505 * 100) + 1 / 2\<rfloor>"
    using T1 [THEN conjunct1] p1 by blast
  then have a: "parseAmount ''2.505'' = Inr (fl 2.51)"
    by (simp add: cents_2_505)
  have p2: "parseFloat ''1.005'' = Finite (fl 1.005) \<and> MIN_AMOUNT \<le> fl 1.005
      \<and> fl 1.005 \<le> MAX_AMOUNT"
    using T2 [THEN conjunct2, THEN conjunct1] l2 by simp
  have "\<exists>n::int. parseAmount ''1.005'' = Inr (fl (real_of_int n / 100))
      \<and> n = \<lfloor>fl (fl 1.005 * 100) + 1 / 2\<rfloor>"
    using T2 [THEN conjunct1] p2 by blast
  then have b: "parseAmount ''1.005'' = Inr 1"
    by (simp add: cents_1_005 fl_1)
  from a b show ?thesis by simp
qed

text \<open>
  The rounding does not come before the bounds check: \<open>0.006\<close> rounds to 0.01, which
  is in the range, and is refused as too low. Nor is the result the nearest cent with
  a tie going away from zero: \<open>1.005\<close>, a tie in decimal, gives 1 and not 1.01; and the
  double of \<open>2.505\<close> lies below 2.505, nearer to 2.50, and gives the double of 2.51.
\<close>

theorem parseAmount_rejects_before_rounding:
  "parseFloat ''0.006'' = Finite (fl 0.006)
   \<and> MIN_AMOUNT \<le> fl (Math_round (fl (fl 0.006 * 100)) / 100)
   \<and> fl (Math_round (fl (fl 0.006 * 100)) / 100) \<le> MAX_AMOUNT
   \<and> parseAmount ''0.006'' = Inl (ValidationError AMOUNT_TOO_LOW ''amount'' ''TOO_LOW'')
   \<and> parseAmount ''1.005'' = Inr 1
   \<and> parseFloat ''2.505'' = Finite (fl 2.505) \<and> fl 2.505 < 2.505
   \<and> parseAmount ''2.505'' = Inr (fl 2.51)"
proof -
  have r: "MIN_AMOUNT \<le> fl 2.505" "fl 2.505 \<le> MAX_AMOUNT"
    "MIN_AMOUNT \<le> fl 1.005" "fl 1.005 \<le> MAX_AMOUNT" "fl 0.006 < MIN_AMOUNT"
    by (simp_all add: MIN_AMOUNT_def MAX_AMOUNT_def fl_0_01 fl_max fl_2_505 fl_1_005 fl_0_006)
  have a: "parseAmount ''0.006'' = Inl (ValidationError AMOUNT_TOO_LOW ''amount'' ''TOO_LOW'')"
    using r by (simp add: parseAmount_Finite [OF parseFloat_0_006])
  have b: "parseAmount ''1.005'' = Inr 1"
    using r MIN_AMOUNT_less_MAX_AMOUNT
    by (simp add: parseAmount_Finite [OF parseFloat_1_005] cents_1_005 fl_1)
  have c: "parseAmount ''2.505'' = Inr (fl 2.51)"
    using r MIN_AMOUNT_less_MAX_AMOUNT
    by (simp add: parseAmount_Finite [OF parseFloat_2_505] cents_2_505)
  have d: "fl (Math_round (fl (fl (3 / 500) * 100)) / 100) = MIN_AMOUNT"
    by (simp add: Math_round_def cents_0_006 MIN_AMOUNT_def)
  have e: "fl 2.505 < 2.505" by (simp add: fl_2_505)
  show ?thesis
    using a b c e MIN_AMOUNT_less_MAX_AMOUNT
    by (simp add: d parseFloat_0_006 parseFloat_2_505)
qed

end
